theory Spec2Isabelle
  imports Main "HOL-Library.Word"
begin

unbundle bit_operations_syntax

section \<open>The transport: a response body as an io.Reader\<close>

text \<open>
  Go errors that the code tells apart by identity (\<open>io.EOF\<close>, \<open>bufio.ErrBufferFull\<close>,
  \<open>io.ErrNoProgress\<close>), and every other error, which \<open>resolve\<close> only ever prints: it is
  kept as its description. \<open>Error\<close> is the method \<open>Error()\<close>, which the verb \<open>%v\<close> of
  \<open>fmt.Sprintf\<close> prints.
\<close>

datatype error = EOF | ErrBufferFull | ErrNoProgress | ErrOther string

fun Error :: "error \<Rightarrow> string" where
  "Error EOF = ''EOF''"
| "Error ErrBufferFull = ''bufio: buffer full''"
| "Error ErrNoProgress = ''multiple Read calls return no data or error''"
| "Error (ErrOther msg) = msg"

text \<open>
  The body of the response is what the transport will deliver: a finite script of
  deliveries, each a chunk of bytes and the error (if any) that comes with the last byte
  of the chunk. \<open>Read k\<close> is one call of \<open>Read(p)\<close> with \<open>len(p) = k\<close>: it hands over at
  most \<open>k\<close> bytes of the first delivery and keeps the rest for the next call. Once the
  script is over every call returns \<open>(0, io.EOF)\<close>.
\<close>

type_synonym body = "(string \<times> error option) list"

fun Read :: "nat \<Rightarrow> body \<Rightarrow> string \<times> error option \<times> body" where
  "Read k [] = ([], Some EOF, [])"
| "Read k ((d, e) # rest) =
     (if length d \<le> k then (d, e, rest)
      else (take k d, None, (drop k d, e) # rest))"

text \<open>Chunks of bytes that arrive one after the other, each without an error.\<close>

definition pure_chunks :: "string list \<Rightarrow> body" where
  "pure_chunks cs = map (\<lambda>d. (d, None)) cs"

section \<open>bufio.Reader, as far as ReadLine needs it\<close>

text \<open>
  \<open>bufio.NewReader\<close> allocates a buffer of \<open>defaultBufSize\<close> bytes. The model keeps the
  unread part \<open>b.buf[b.r:b.w]\<close> of that buffer as \<open>buf\<close>, the underlying reader as \<open>rd\<close>
  and the pending error \<open>b.err\<close> as \<open>err\<close>. \<open>fill\<close> slides the unread bytes to the front
  and reads once into the free space, retrying an empty read up to
  \<open>maxConsecutiveEmptyReads\<close> times.
\<close>

definition defaultBufSize :: nat where
  "defaultBufSize = 4096"

definition maxConsecutiveEmptyReads :: nat where
  "maxConsecutiveEmptyReads = 100"

record Reader =
  buf :: string
  rd :: body
  err :: "error option"

definition NewReader :: "body \<Rightarrow> Reader" where
  "NewReader r = \<lparr>buf = [], rd = r, err = None\<rparr>"

fun fill_loop :: "nat \<Rightarrow> Reader \<Rightarrow> Reader" where
  "fill_loop 0 b = b\<lparr>err := Some ErrNoProgress\<rparr>"
| "fill_loop (Suc i) b =
     (case Read (defaultBufSize - length (buf b)) (rd b) of
        (d, e, rd') \<Rightarrow>
          (let b' = b\<lparr>buf := buf b @ d, rd := rd'\<rparr> in
           case e of
             Some x \<Rightarrow> b'\<lparr>err := Some x\<rparr>
           | None \<Rightarrow> if d \<noteq> [] then b' else fill_loop i b'))"

definition fill :: "Reader \<Rightarrow> Reader" where
  "fill b = fill_loop maxConsecutiveEmptyReads b"

fun IndexByte :: "string \<Rightarrow> char \<Rightarrow> nat option" where
  "IndexByte [] c = None"
| "IndexByte (x # xs) c = (if x = c then Some 0 else map_option Suc (IndexByte xs c))"

lemma fill_loop_progress:
  "err b = None \<Longrightarrow>
   err (fill_loop n b) \<noteq> None \<or> length (buf b) < length (buf (fill_loop n b))"
proof (induction n arbitrary: b)
  case 0
  then show ?case by simp
next
  case (Suc n)
  obtain d e rd' where r: "Read (defaultBufSize - length (buf b)) (rd b) = (d, e, rd')"
    by (cases "Read (defaultBufSize - length (buf b)) (rd b)") auto
  show ?case
  proof (cases e)
    case (Some x)
    with r show ?thesis by simp
  next
    case None
    show ?thesis
    proof (cases "d = []")
      case True
      have "err (b\<lparr>rd := rd'\<rparr>) = None" using Suc.prems by simp
      from Suc.IH[OF this] r None True show ?thesis by simp
    next
      case False
      with r None show ?thesis by simp
    qed
  qed
qed

text \<open>
  \<open>ReadSlice('\n')\<close>: search the unread bytes for the delimiter; failing that, hand over
  what is buffered with the pending error; failing that, report a full buffer; otherwise
  fill and search again. The loop ends because a fill either sets the pending error or
  adds a byte to a buffer that is not yet full.
\<close>

function ReadSlice :: "Reader \<Rightarrow> string \<times> error option \<times> Reader" where
  "ReadSlice b =
     (case IndexByte (buf b) (CHR 0x0A) of
        Some i \<Rightarrow> (take (i + 1) (buf b), None, b\<lparr>buf := drop (i + 1) (buf b)\<rparr>)
      | None \<Rightarrow>
         (case err b of
            Some e \<Rightarrow> (buf b, Some e, b\<lparr>buf := [], err := None\<rparr>)
          | None \<Rightarrow>
              if defaultBufSize \<le> length (buf b)
              then (buf b, Some ErrBufferFull, b\<lparr>buf := []\<rparr>)
              else ReadSlice (fill b)))"
  by pat_completeness auto
termination
proof (relation "measure (\<lambda>b. case err b of Some _ \<Rightarrow> 0
                                 | None \<Rightarrow> Suc (defaultBufSize - length (buf b)))")
  fix b :: Reader
  assume "err b = None" "\<not> defaultBufSize \<le> length (buf b)"
  then show "(fill b, b) \<in> measure (\<lambda>b. case err b of Some _ \<Rightarrow> 0
                                 | None \<Rightarrow> Suc (defaultBufSize - length (buf b)))"
    using fill_loop_progress[of b maxConsecutiveEmptyReads]
    by (auto simp: fill_def split: option.splits)
qed simp

declare ReadSlice.simps [simp del]

text \<open>
  \<open>ReadLine\<close> returns \<open>(line, isPrefix, err)\<close>. A full buffer gives a fragment with
  \<open>isPrefix\<close> set; a carriage return at the end of the fragment is put back (\<open>b.r--\<close>) so
  that the next call can see a line end that straddles the buffer. An empty slice gives
  the error and no line. Otherwise the error is dropped and the line end (\<open>\n\<close> or
  \<open>\r\n\<close>) is cut off.
\<close>

definition ReadLine :: "Reader \<Rightarrow> string \<times> bool \<times> error option \<times> Reader" where
  "ReadLine b =
     (case ReadSlice b of
        (line, e, b') \<Rightarrow>
          if e = Some ErrBufferFull then
            (if line \<noteq> [] \<and> last line = CHR 0x0D
             then (butlast line, True, None, b'\<lparr>buf := last line # buf b'\<rparr>)
             else (line, True, None, b'))
          else if line = [] then ([], False, e, b')
          else if last line = CHR 0x0A then
            (let drop_n = (if 1 < length line \<and> line ! (length line - 2) = CHR 0x0D
                           then 2 else 1)
             in (take (length line - drop_n) line, False, None, b'))
          else (line, False, None, b'))"

section \<open>Termination of the read loop\<close>

text \<open>
  Every call of \<open>ReadLine\<close> that returns no error uses up something of the stream: bytes
  that were buffered or still to come, a delivery of the script, or the pending error.
  \<open>weight\<close> counts them; it is the measure of the loop of \<open>resolve\<close>.
\<close>

definition weight :: "Reader \<Rightarrow> nat" where
  "weight b = 2 * (length (buf b) + sum_list (map (\<lambda>(d, e). Suc (length d)) (rd b)))
              + (if err b = None then 0 else 1)"

lemma IndexByte_less: "IndexByte xs c = Some i \<Longrightarrow> i < length xs"
  by (induction xs arbitrary: i) (auto split: if_splits)

lemma Read_weight:
  assumes "Read k r = (d, e, r')"
  shows "2 * length d + 2 * sum_list (map (\<lambda>(d, e). Suc (length d)) r')
         \<le> 2 * sum_list (map (\<lambda>(d, e). Suc (length d)) r)"
    and "r \<noteq> [] \<Longrightarrow> 0 < k \<Longrightarrow> d = [] \<Longrightarrow>
         2 + 2 * sum_list (map (\<lambda>(d, e). Suc (length d)) r')
         \<le> 2 * sum_list (map (\<lambda>(d, e). Suc (length d)) r)"
    and "r \<noteq> [] \<Longrightarrow> e \<noteq> None \<Longrightarrow>
         2 + 2 * length d + 2 * sum_list (map (\<lambda>(d, e). Suc (length d)) r')
         \<le> 2 * sum_list (map (\<lambda>(d, e). Suc (length d)) r)"
  using assms by (cases r; auto split: if_splits)+

lemma fill_loop_weight_le:
  "err b = None \<Longrightarrow> length (buf b) < defaultBufSize \<Longrightarrow>
   weight (fill_loop n b) \<le> weight b + 1"
proof (induction n arbitrary: b)
  case 0
  then show ?case by (simp add: weight_def)
next
  case (Suc n)
  obtain d e rd' where r: "Read (defaultBufSize - length (buf b)) (rd b) = (d, e, rd')"
    by (cases "Read (defaultBufSize - length (buf b)) (rd b)") auto
  note w = Read_weight(1)[OF r]
  show ?case
  proof (cases e)
    case (Some x)
    with r w Suc.prems show ?thesis by (simp add: weight_def)
  next
    case None
    show ?thesis
    proof (cases "d = []")
      case True
      have "weight (fill_loop n (b\<lparr>rd := rd'\<rparr>)) \<le> weight (b\<lparr>rd := rd'\<rparr>) + 1"
        using Suc.IH[of "b\<lparr>rd := rd'\<rparr>"] Suc.prems by simp
      moreover have "weight (b\<lparr>rd := rd'\<rparr>) \<le> weight b"
        using w True Suc.prems by (simp add: weight_def)
      ultimately show ?thesis using r None True by simp
    next
      case False
      with r None w Suc.prems show ?thesis by (simp add: weight_def)
    qed
  qed
qed

lemma fill_weight:
  assumes "err b = None" "length (buf b) < defaultBufSize" "rd b \<noteq> []"
  shows "weight (fill b) \<le> weight b"
proof -
  obtain n where n: "maxConsecutiveEmptyReads = Suc n"
    by (simp add: maxConsecutiveEmptyReads_def)
  obtain d e rd' where r: "Read (defaultBufSize - length (buf b)) (rd b) = (d, e, rd')"
    by (cases "Read (defaultBufSize - length (buf b)) (rd b)") auto
  have k: "0 < defaultBufSize - length (buf b)" using assms(2) by simp
  note w = Read_weight[OF r]
  show ?thesis
  proof (cases e)
    case (Some x)
    with r w(3) assms show ?thesis by (simp add: weight_def fill_def n)
  next
    case None
    show ?thesis
    proof (cases "d = []")
      case True
      have "weight (fill_loop n (b\<lparr>rd := rd'\<rparr>)) \<le> weight (b\<lparr>rd := rd'\<rparr>) + 1"
        using fill_loop_weight_le[of "b\<lparr>rd := rd'\<rparr>" n] assms by simp
      moreover have "weight (b\<lparr>rd := rd'\<rparr>) + 2 \<le> weight b"
        using w(2)[OF assms(3) k True] assms by (simp add: weight_def)
      ultimately show ?thesis using r None True by (simp add: fill_def n)
    next
      case False
      with r None w(1) assms show ?thesis by (simp add: weight_def fill_def n)
    qed
  qed
qed

lemma fill_at_end:
  "rd b = [] \<Longrightarrow> fill b = b\<lparr>err := Some EOF\<rparr>"
  by (simp add: fill_def maxConsecutiveEmptyReads_def eval_nat_numeral)

lemma ReadSlice_weight:
  "ReadSlice b = (line, e, b') \<Longrightarrow>
   (e = None \<and> line \<noteq> [] \<and> weight b' + 2 * length line \<le> weight b) \<or>
   (e \<noteq> None \<and> weight b' + 2 * length line + 1 \<le> weight b) \<or>
   (e = Some ErrBufferFull \<and> defaultBufSize \<le> length line \<and>
      weight b' + 2 * length line \<le> weight b) \<or>
   (e = Some EOF \<and> weight b' + 2 * length line \<le> weight b)"
proof (induction b arbitrary: line e b' rule: ReadSlice.induct)
  case (1 b)
  show ?case
  proof (cases "IndexByte (buf b) (CHR 0x0A)")
    case (Some i)
    have lt: "i < length (buf b)"
      using Some by (rule IndexByte_less)
    from "1.prems" Some have res: "line = take (i + 1) (buf b)" "e = None"
      "b' = b\<lparr>buf := drop (i + 1) (buf b)\<rparr>"
      by (simp_all add: ReadSlice.simps[of b])
    have "length line = i + 1" "line \<noteq> []" using lt res(1) by auto
    moreover have "length (buf b') + length line = length (buf b)"
      using lt res by simp
    moreover have "rd b' = rd b" "err b' = err b" using res by simp_all
    ultimately show ?thesis using res(2) by (simp add: weight_def)
  next
    case None
    note nl = this
    show ?thesis
    proof (cases "err b")
      case (Some x)
      with "1.prems" nl show ?thesis by (auto simp: weight_def ReadSlice.simps[of b])
    next
      case noerr: None
      show ?thesis
      proof (cases "defaultBufSize \<le> length (buf b)")
        case True
        with "1.prems" nl noerr show ?thesis
          by (auto simp: weight_def ReadSlice.simps[of b])
      next
        case False
        then have rec: "ReadSlice (fill b) = (line, e, b')"
          using "1.prems" nl noerr by (simp add: ReadSlice.simps[of b])
        show ?thesis
        proof (cases "rd b = []")
          case True
          have "ReadSlice (b\<lparr>err := Some EOF\<rparr>) = (line, e, b')"
            using rec fill_at_end[OF True] by simp
          then show ?thesis using nl noerr True
            by (auto simp: weight_def ReadSlice.simps[of "b\<lparr>err := Some EOF\<rparr>"])
        next
          case F: False
          have "weight (fill b) \<le> weight b"
            using fill_weight[OF noerr _ F] False by simp
          moreover note "1.IH"[OF nl noerr False rec]
          ultimately show ?thesis by auto
        qed
      qed
    qed
  qed
qed

lemma ReadLine_progress:
  assumes "ReadLine b = (line, p, None, b')"
  shows "weight b' < weight b"
proof -
  obtain l0 e0 b0 where rs: "ReadSlice b = (l0, e0, b0)"
    by (cases "ReadSlice b") auto
  note w = ReadSlice_weight[OF rs]
  have N: "2 \<le> defaultBufSize" by (simp add: defaultBufSize_def)
  show ?thesis
  proof (cases "e0 = Some ErrBufferFull")
    case True
    show ?thesis
    proof (cases "l0 \<noteq> [] \<and> last l0 = CHR 0x0D")
      case T2: True
      then have "1 \<le> length l0" by (cases l0) auto
      moreover have "b' = b0\<lparr>buf := last l0 # buf b0\<rparr>"
        using assms rs True T2 by (simp add: ReadLine_def)
      then have "weight b' = weight b0 + 2" by (simp add: weight_def)
      ultimately show ?thesis using w True N by auto
    next
      case F2: False
      then have "b' = b0" using assms rs True by (auto simp: ReadLine_def)
      then show ?thesis using w True N by auto
    qed
  next
    case False
    have ne: "l0 \<noteq> []" using assms rs False w by (auto simp: ReadLine_def)
    then have "1 \<le> length l0" by (cases l0) auto
    moreover have "b' = b0"
      using assms rs False ne by (auto simp: ReadLine_def Let_def split: if_splits)
    ultimately show ?thesis using w by auto
  qed
qed

section \<open>The wire format\<close>

text \<open>
  The decoded unit of the wire. \<open>src/chat.go\<close> declares the first five fields;
  \<open>src/unnamed/part_000\<close> adds \<open>ToolCalls\<close>, whose Go type is \<open>[]interface{}\<close>: the
  resolver only hands it to \<open>json.Marshal\<close>, so its type is left open here.
\<close>

record block_chat_go =
  Finished :: bool
  Event :: string
  Id' :: string
  Text :: string
  Reason :: string

record 'tc block = block_chat_go +
  ToolCalls :: 'tc

section \<open>encoding/json, as far as a block needs it\<close>

datatype parse_state = parseObjectKey | parseObjectValue | parseArrayValue

datatype scan_state =
    stateBeginValueOrEmpty | stateBeginValue | stateBeginStringOrEmpty | stateBeginString
  | stateEndValue | stateEndTop
  | stateInString | stateInStringEsc | stateInStringEscU | stateInStringEscU1
  | stateInStringEscU12 | stateInStringEscU123
  | stateNeg | state1 | state0 | stateDot | stateDot0 | stateE | stateESign | stateE0
  | stateT | stateTr | stateTru | stateF | stateFa | stateFal | stateFals
  | stateN | stateNu | stateNul

text \<open>
  The scanner of \<open>encoding/json\<close>: one state function per byte, a stack of the arrays
  and objects that are open (innermost first). A step answers with the next state and
  stack, or with the context of a syntax error.
\<close>

definition maxNestingDepth :: nat where
  "maxNestingDepth = 10000"

definition isSpace :: "char \<Rightarrow> bool" where
  "isSpace c = (c = CHR '' '' \<or> c = CHR 0x09 \<or> c = CHR 0x0D \<or> c = CHR 0x0A)"

definition isDigit :: "char \<Rightarrow> bool" where
  "isDigit c = (of_char (CHR ''0'') \<le> (of_char c :: nat) \<and> (of_char c :: nat) \<le> of_char (CHR ''9''))"

definition isHex :: "char \<Rightarrow> bool" where
  "isHex c = (isDigit c
      \<or> (of_char (CHR ''a'') \<le> (of_char c :: nat) \<and> (of_char c :: nat) \<le> of_char (CHR ''f''))
      \<or> (of_char (CHR ''A'') \<le> (of_char c :: nat) \<and> (of_char c :: nat) \<le> of_char (CHR ''F'')))"

type_synonym scan_result = "string + scan_state \<times> parse_state list"

definition pushParseState :: "parse_state list \<Rightarrow> parse_state \<Rightarrow> scan_state \<Rightarrow> scan_result" where
  "pushParseState ps new st =
     (if length (new # ps) \<le> maxNestingDepth then Inr (st, new # ps)
      else Inl ''exceeded max depth'')"

definition popParseState :: "parse_state list \<Rightarrow> scan_result" where
  "popParseState ps =
     (let rest = tl ps in Inr (if rest = [] then stateEndTop else stateEndValue, rest))"

definition scan_stateEndTop :: "char \<Rightarrow> scan_result" where
  "scan_stateEndTop c = (if isSpace c then Inr (stateEndTop, []) else Inl ''after top-level value'')"

definition scan_stateEndValue :: "parse_state list \<Rightarrow> char \<Rightarrow> scan_result" where
  "scan_stateEndValue ps c =
     (case ps of
        [] \<Rightarrow> scan_stateEndTop c
      | p # rest \<Rightarrow>
          if isSpace c then Inr (stateEndValue, ps)
          else (case p of
                  parseObjectKey \<Rightarrow>
                    if c = CHR '':'' then Inr (stateBeginValue, parseObjectValue # rest)
                    else Inl ''after object key''
                | parseObjectValue \<Rightarrow>
                    if c = CHR '','' then Inr (stateBeginString, parseObjectKey # rest)
                    else if c = CHR ''}'' then popParseState ps
                    else Inl ''after object key:value pair''
                | parseArrayValue \<Rightarrow>
                    if c = CHR '','' then Inr (stateBeginValue, ps)
                    else if c = CHR '']'' then popParseState ps
                    else Inl ''after array element''))"

definition scan_stateBeginValue :: "scan_state \<Rightarrow> parse_state list \<Rightarrow> char \<Rightarrow> scan_result" where
  "scan_stateBeginValue cur ps c =
     (if isSpace c then Inr (cur, ps)
      else if c = CHR ''{'' then pushParseState ps parseObjectKey stateBeginStringOrEmpty
      else if c = CHR ''['' then pushParseState ps parseArrayValue stateBeginValueOrEmpty
      else if c = CHR 0x22 then Inr (stateInString, ps)
      else if c = CHR ''-'' then Inr (stateNeg, ps)
      else if c = CHR ''0'' then Inr (state0, ps)
      else if c = CHR ''t'' then Inr (stateT, ps)
      else if c = CHR ''f'' then Inr (stateF, ps)
      else if c = CHR ''n'' then Inr (stateN, ps)
      else if isDigit c then Inr (state1, ps)
      else Inl ''looking for beginning of value'')"

definition scan_stateBeginString :: "scan_state \<Rightarrow> parse_state list \<Rightarrow> char \<Rightarrow> scan_result" where
  "scan_stateBeginString cur ps c =
     (if isSpace c then Inr (cur, ps)
      else if c = CHR 0x22 then Inr (stateInString, ps)
      else Inl ''looking for beginning of object key string'')"

definition scan_state0 :: "parse_state list \<Rightarrow> char \<Rightarrow> scan_result" where
  "scan_state0 ps c =
     (if c = CHR ''.'' then Inr (stateDot, ps)
      else if c = CHR ''e'' \<or> c = CHR ''E'' then Inr (stateE, ps)
      else scan_stateEndValue ps c)"

definition scan_stateESign :: "parse_state list \<Rightarrow> char \<Rightarrow> scan_result" where
  "scan_stateESign ps c =
     (if isDigit c then Inr (stateE0, ps) else Inl ''in exponent of numeric literal'')"

definition expect :: "char \<Rightarrow> char \<Rightarrow> scan_state \<Rightarrow> parse_state list \<Rightarrow> string \<Rightarrow> scan_result" where
  "expect want c st ps context = (if c = want then Inr (st, ps) else Inl context)"

fun scan_step :: "scan_state \<Rightarrow> parse_state list \<Rightarrow> char \<Rightarrow> scan_result" where
  "scan_step stateBeginValueOrEmpty ps c =
     (if isSpace c then Inr (stateBeginValueOrEmpty, ps)
      else if c = CHR '']'' then scan_stateEndValue ps c
      else scan_stateBeginValue stateBeginValueOrEmpty ps c)"
| "scan_step stateBeginValue ps c = scan_stateBeginValue stateBeginValue ps c"
| "scan_step stateBeginStringOrEmpty ps c =
     (if isSpace c then Inr (stateBeginStringOrEmpty, ps)
      else if c = CHR ''}'' then scan_stateEndValue (parseObjectValue # tl ps) c
      else scan_stateBeginString stateBeginStringOrEmpty ps c)"
| "scan_step stateBeginString ps c = scan_stateBeginString stateBeginString ps c"
| "scan_step stateEndValue ps c = scan_stateEndValue ps c"
| "scan_step stateEndTop ps c = scan_stateEndTop c"
| "scan_step stateInString ps c =
     (if c = CHR 0x22 then Inr (stateEndValue, ps)
      else if c = CHR 0x5C then Inr (stateInStringEsc, ps)
      else if (of_char c :: nat) < 0x20 then Inl ''in string literal''
      else Inr (stateInString, ps))"
| "scan_step stateInStringEsc ps c =
     (if c \<in> set ''bfnrt'' \<or> c = CHR 0x5C \<or> c = CHR ''/'' \<or> c = CHR 0x22
      then Inr (stateInString, ps)
      else if c = CHR ''u'' then Inr (stateInStringEscU, ps)
      else Inl ''in string escape code'')"
| "scan_step stateInStringEscU ps c =
     (if isHex c then Inr (stateInStringEscU1, ps)
      else Inl (''in '' @ [CHR 0x5C] @ ''u hexadecimal character escape''))"
| "scan_step stateInStringEscU1 ps c =
     (if isHex c then Inr (stateInStringEscU12, ps)
      else Inl (''in '' @ [CHR 0x5C] @ ''u hexadecimal character escape''))"
| "scan_step stateInStringEscU12 ps c =
     (if isHex c then Inr (stateInStringEscU123, ps)
      else Inl (''in '' @ [CHR 0x5C] @ ''u hexadecimal character escape''))"
| "scan_step stateInStringEscU123 ps c =
     (if isHex c then Inr (stateInString, ps)
      else Inl (''in '' @ [CHR 0x5C] @ ''u hexadecimal character escape''))"
| "scan_step stateNeg ps c =
     (if c = CHR ''0'' then Inr (state0, ps)
      else if isDigit c then Inr (state1, ps)
      else Inl ''in numeric literal'')"
| "scan_step state1 ps c =
     (if isDigit c then Inr (state1, ps) else scan_state0 ps c)"
| "scan_step state0 ps c = scan_state0 ps c"
| "scan_step stateDot ps c =
     (if isDigit c then Inr (stateDot0, ps)
      else Inl ''after decimal point in numeric literal'')"
| "scan_step stateDot0 ps c =
     (if isDigit c then Inr (stateDot0, ps)
      else if c = CHR ''e'' \<or> c = CHR ''E'' then Inr (stateE, ps)
      else scan_stateEndValue ps c)"
| "scan_step stateE ps c =
     (if c = CHR ''+'' \<or> c = CHR ''-'' then Inr (stateESign, ps)
      else scan_stateESign ps c)"
| "scan_step stateESign ps c = scan_stateESign ps c"
| "scan_step stateE0 ps c =
     (if isDigit c then Inr (stateE0, ps) else scan_stateEndValue ps c)"
| "scan_step stateT ps c = expect (CHR ''r'') c stateTr ps ''in literal true (expecting 'r')''"
| "scan_step stateTr ps c = expect (CHR ''u'') c stateTru ps ''in literal true (expecting 'u')''"
| "scan_step stateTru ps c = expect (CHR ''e'') c stateEndValue ps ''in literal true (expecting 'e')''"
| "scan_step stateF ps c = expect (CHR ''a'') c stateFa ps ''in literal false (expecting 'a')''"
| "scan_step stateFa ps c = expect (CHR ''l'') c stateFal ps ''in literal false (expecting 'l')''"
| "scan_step stateFal ps c = expect (CHR ''s'') c stateFals ps ''in literal false (expecting 's')''"
| "scan_step stateFals ps c = expect (CHR ''e'') c stateEndValue ps ''in literal false (expecting 'e')''"
| "scan_step stateN ps c = expect (CHR ''u'') c stateNu ps ''in literal null (expecting 'u')''"
| "scan_step stateNu ps c = expect (CHR ''l'') c stateNul ps ''in literal null (expecting 'l')''"
| "scan_step stateNul ps c = expect (CHR ''l'') c stateEndValue ps ''in literal null (expecting 'l')''"


text \<open>
  The text of a syntax error is \<open>invalid character 'c' context\<close>, with the byte quoted
  as \<open>strconv.Quote\<close> quotes the rune of that value.
\<close>

definition hexdigit :: "nat \<Rightarrow> char" where
  "hexdigit n = ''0123456789abcdef'' ! (n mod 16)"

definition quoteChar :: "char \<Rightarrow> string" where
  "quoteChar c =
     (let n = (of_char c :: nat) in
      if c = CHR 0x27 then [CHR 0x27, CHR 0x5C, CHR 0x27, CHR 0x27]
      else if c = CHR 0x22 then [CHR 0x27, CHR 0x22, CHR 0x27]
      else [CHR 0x27] @
        (if c = CHR 0x5C then [CHR 0x5C, CHR 0x5C]
         else if 0x20 \<le> n \<and> n \<le> 0x7E then [c]
         else if 0xA1 \<le> n \<and> n \<noteq> 0xAD then [char_of (0xC0 + n div 64), char_of (0x80 + n mod 64)]
         else if n = 7 then [CHR 0x5C, CHR ''a'']
         else if n = 8 then [CHR 0x5C, CHR ''b'']
         else if n = 12 then [CHR 0x5C, CHR ''f'']
         else if n = 10 then [CHR 0x5C, CHR ''n'']
         else if n = 13 then [CHR 0x5C, CHR ''r'']
         else if n = 9 then [CHR 0x5C, CHR ''t'']
         else if n = 11 then [CHR 0x5C, CHR ''v'']
         else if n < 0x20 \<or> n = 0x7F then [CHR 0x5C, CHR ''x'', hexdigit (n div 16), hexdigit n]
         else [CHR 0x5C, CHR ''u'', CHR ''0'', CHR ''0'', hexdigit (n div 16), hexdigit n])
        @ [CHR 0x27])"

definition syntax_error :: "char \<Rightarrow> string \<Rightarrow> error" where
  "syntax_error c context = ErrOther (''invalid character '' @ quoteChar c @ '' '' @ context)"

text \<open>
  \<open>checkValid\<close> feeds every byte to the scanner and then the end of the input: a value
  that is not complete by then is an \<open>unexpected end of JSON input\<close>.
\<close>

fun scan_bytes :: "scan_state \<Rightarrow> parse_state list \<Rightarrow> string \<Rightarrow> error + scan_state \<times> parse_state list" where
  "scan_bytes st ps [] = Inr (st, ps)"
| "scan_bytes st ps (c # cs) =
     (case scan_step st ps c of
        Inl context \<Rightarrow> Inl (syntax_error c context)
      | Inr (st', ps') \<Rightarrow> scan_bytes st' ps' cs)"

definition scan_eof :: "scan_state \<Rightarrow> parse_state list \<Rightarrow> error option" where
  "scan_eof st ps =
     (if st = stateEndTop then None
      else case scan_step st ps (CHR '' '') of
             Inl context \<Rightarrow> Some (syntax_error (CHR '' '') context)
           | Inr (st', ps') \<Rightarrow>
               if st' = stateEndTop then None
               else Some (ErrOther ''unexpected end of JSON input''))"

definition checkValid :: "string \<Rightarrow> error option" where
  "checkValid data =
     (case scan_bytes stateBeginValue [] data of
        Inl e \<Rightarrow> Some e
      | Inr (st, ps) \<Rightarrow> scan_eof st ps)"

text \<open>
  A decoded JSON value. A number is kept as its literal (the \<open>float64\<close> that
  \<open>strconv.ParseFloat\<close> makes of it is not modelled, only whether it overflows); an
  object is kept as its members in the order of the input.
\<close>

datatype json = JNull | JBool bool | JNumber string | JString string
  | JArray "json list" | JObject "(string \<times> json) list"

text \<open>
  String literals: \<open>unquote\<close> resolves the escapes, joins surrogate pairs, copies valid
  UTF-8 and puts U+FFFD for a lone surrogate or a byte that is not valid UTF-8.
\<close>

definition replacementChar :: string where
  "replacementChar = [CHR 0xEF, CHR 0xBF, CHR 0xBD]"

definition EncodeRune :: "nat \<Rightarrow> string" where
  "EncodeRune r =
     (if r < 0x80 then [char_of r]
      else if r < 0x800 then [char_of (0xC0 + r div 64), char_of (0x80 + r mod 64)]
      else if 0x10FFFF < r \<or> (0xD800 \<le> r \<and> r \<le> 0xDFFF) then replacementChar
      else if r < 0x10000 then
        [char_of (0xE0 + r div 4096), char_of (0x80 + (r div 64) mod 64), char_of (0x80 + r mod 64)]
      else
        [char_of (0xF0 + r div 262144), char_of (0x80 + (r div 4096) mod 64),
         char_of (0x80 + (r div 64) mod 64), char_of (0x80 + r mod 64)])"

definition in_range :: "nat \<Rightarrow> nat \<Rightarrow> char \<Rightarrow> bool" where
  "in_range lo hi c = (lo \<le> (of_char c :: nat) \<and> (of_char c :: nat) \<le> hi)"

definition cont :: "char \<Rightarrow> bool" where
  "cont c = in_range 0x80 0xBF c"

text \<open>The length of the valid UTF-8 sequence at the head; 1 when there is none.\<close>

fun rune_size :: "string \<Rightarrow> nat" where
  "rune_size (b0 # b1 # b2 # b3 # _) =
     (let n = (of_char b0 :: nat) in
      if in_range 0xC2 0xDF b0 \<and> cont b1 then 2
      else if n = 0xE0 \<and> in_range 0xA0 0xBF b1 \<and> cont b2 then 3
      else if (in_range 0xE1 0xEC b0 \<or> in_range 0xEE 0xEF b0) \<and> cont b1 \<and> cont b2 then 3
      else if n = 0xED \<and> in_range 0x80 0x9F b1 \<and> cont b2 then 3
      else if n = 0xF0 \<and> in_range 0x90 0xBF b1 \<and> cont b2 \<and> cont b3 then 4
      else if in_range 0xF1 0xF3 b0 \<and> cont b1 \<and> cont b2 \<and> cont b3 then 4
      else if n = 0xF4 \<and> in_range 0x80 0x8F b1 \<and> cont b2 \<and> cont b3 then 4
      else 1)"
| "rune_size [b0, b1, b2] =
     (let n = (of_char b0 :: nat) in
      if in_range 0xC2 0xDF b0 \<and> cont b1 then 2
      else if n = 0xE0 \<and> in_range 0xA0 0xBF b1 \<and> cont b2 then 3
      else if (in_range 0xE1 0xEC b0 \<or> in_range 0xEE 0xEF b0) \<and> cont b1 \<and> cont b2 then 3
      else if n = 0xED \<and> in_range 0x80 0x9F b1 \<and> cont b2 then 3
      else 1)"
| "rune_size [b0, b1] = (if in_range 0xC2 0xDF b0 \<and> cont b1 then 2 else 1)"
| "rune_size _ = 1"

definition hexval :: "char \<Rightarrow> nat" where
  "hexval c =
     (let n = (of_char c :: nat) in
      if in_range 0x30 0x39 c then n - 0x30
      else if in_range 0x61 0x66 c then n - 0x61 + 10
      else n - 0x41 + 10)"

definition getu4 :: "char \<Rightarrow> char \<Rightarrow> char \<Rightarrow> char \<Rightarrow> nat" where
  "getu4 a b c d = ((hexval a * 16 + hexval b) * 16 + hexval c) * 16 + hexval d"

definition unescape :: "char \<Rightarrow> char" where
  "unescape c =
     (if c = CHR ''b'' then CHR 0x08 else if c = CHR ''f'' then CHR 0x0C
      else if c = CHR ''n'' then CHR 0x0A else if c = CHR ''r'' then CHR 0x0D
      else if c = CHR ''t'' then CHR 0x09 else c)"

fun unquote :: "string \<Rightarrow> string" where
  "unquote [] = []"
| "unquote (c # cs) =
     (if c = CHR 0x5C then
        (case cs of
           [] \<Rightarrow> []
         | e # rest \<Rightarrow>
             if e = CHR ''u'' then
               (case rest of
                  h1 # h2 # h3 # h4 # rest1 \<Rightarrow>
                    (let rr = getu4 h1 h2 h3 h4 in
                     if 0xD800 \<le> rr \<and> rr < 0xE000 then
                       (case rest1 of
                          b # u # g1 # g2 # g3 # g4 # rest2 \<Rightarrow>
                            (let rr1 = getu4 g1 g2 g3 g4 in
                             if b = CHR 0x5C \<and> u = CHR ''u'' \<and> rr < 0xDC00
                                \<and> 0xDC00 \<le> rr1 \<and> rr1 < 0xE000
                             then EncodeRune ((rr - 0xD800) * 1024 + (rr1 - 0xDC00) + 0x10000)
                                  @ unquote rest2
                             else replacementChar @ unquote rest1)
                        | _ \<Rightarrow> replacementChar @ unquote rest1)
                     else EncodeRune rr @ unquote rest1)
                | _ \<Rightarrow> [])
             else unescape e # unquote rest)
      else if (of_char c :: nat) < 0x80 then c # unquote cs
      else
        (case rune_size (c # cs) of
           Suc 0 \<Rightarrow> replacementChar @ unquote cs
         | n \<Rightarrow> take n (c # cs) @ unquote (drop (n - 1) cs)))"


text \<open>
  The value is built in one pass over the bytes that \<open>checkValid\<close> accepted: \<open>frame\<close> is
  an array or an object that is still open, with what it holds so far.
\<close>

datatype frame = FArray "json list" | FObject "(string \<times> json) list" "string option"

datatype lex_mode = InSpace | InStr string bool | InLit string

definition literal_value :: "string \<Rightarrow> json" where
  "literal_value lit =
     (if lit = ''true'' then JBool True else if lit = ''false'' then JBool False
      else if lit = ''null'' then JNull else JNumber lit)"

text \<open>A finished value goes to the innermost open array or object, or is the result.\<close>

fun deliver :: "json \<Rightarrow> frame list \<Rightarrow> json option \<Rightarrow> frame list \<times> json option" where
  "deliver v [] res = ([], Some v)"
| "deliver v (FArray vs # st) res = (FArray (vs @ [v]) # st, res)"
| "deliver v (FObject kvs (Some k) # st) res = (FObject (kvs @ [(k, v)]) None # st, res)"
| "deliver v (FObject kvs None # st) res = (FObject kvs None # st, res)"

fun deliver_string :: "string \<Rightarrow> frame list \<Rightarrow> json option \<Rightarrow> frame list \<times> json option" where
  "deliver_string s (FObject kvs None # st) res = (FObject kvs (Some s) # st, res)"
| "deliver_string s st res = deliver (JString s) st res"

fun close_frame :: "frame list \<Rightarrow> json option \<Rightarrow> frame list \<times> json option" where
  "close_frame [] res = ([], res)"
| "close_frame (FArray vs # st) res = deliver (JArray vs) st res"
| "close_frame (FObject kvs _ # st) res = deliver (JObject kvs) st res"

definition structural :: "char \<Rightarrow> frame list \<Rightarrow> json option \<Rightarrow> lex_mode \<times> frame list \<times> json option" where
  "structural c st res =
     (if c = CHR ''{'' then (InSpace, FObject [] None # st, res)
      else if c = CHR ''['' then (InSpace, FArray [] # st, res)
      else if c = CHR ''}'' \<or> c = CHR '']'' then
        (case close_frame st res of (st', res') \<Rightarrow> (InSpace, st', res'))
      else if c = CHR 0x22 then (InStr [] False, st, res)
      else if isSpace c \<or> c = CHR '','' \<or> c = CHR '':'' then (InSpace, st, res)
      else (InLit [c], st, res))"

fun build :: "lex_mode \<Rightarrow> frame list \<Rightarrow> json option \<Rightarrow> string \<Rightarrow> json option" where
  "build InSpace st res [] = res"
| "build (InStr acc esc) st res [] = res"
| "build (InLit acc) st res [] = snd (deliver (literal_value acc) st res)"
| "build InSpace st res (c # cs) =
     (case structural c st res of (m, st', res') \<Rightarrow> build m st' res' cs)"
| "build (InStr acc esc) st res (c # cs) =
     (if esc then build (InStr (acc @ [c]) False) st res cs
      else if c = CHR 0x5C then build (InStr (acc @ [c]) True) st res cs
      else if c = CHR 0x22 then
        (case deliver_string (unquote acc) st res of (st', res') \<Rightarrow> build InSpace st' res' cs)
      else build (InStr (acc @ [c]) False) st res cs)"
| "build (InLit acc) st res (c # cs) =
     (if isSpace c \<or> c = CHR '','' \<or> c = CHR '']'' \<or> c = CHR ''}'' then
        (case deliver (literal_value acc) st res of
           (st', res') \<Rightarrow>
             (case structural c st' res' of (m, st'', res'') \<Rightarrow> build m st'' res'' cs))
      else build (InLit (acc @ [c])) st res cs)"

definition parse_json :: "string \<Rightarrow> json option" where
  "parse_json data = build InSpace [] None data"

text \<open>
  A number decoded into an \<open>interface{}\<close> becomes a \<open>float64\<close>; \<open>strconv.ParseFloat\<close>
  reports a range error when the literal rounds to infinity, that is when its magnitude
  is at least \<open>2^1024 - 2^970\<close>.
\<close>

definition digits_val :: "string \<Rightarrow> int" where
  "digits_val ds = foldl (\<lambda>n c. 10 * n + (of_char c - 0x30)) 0 ds"

definition float64_overflows :: "string \<Rightarrow> bool" where
  "float64_overflows lit =
     (let unsigned = (if lit \<noteq> [] \<and> hd lit = CHR ''-'' then tl lit else lit);
          mant = takeWhile (\<lambda>c. c \<noteq> CHR ''e'' \<and> c \<noteq> CHR ''E'') unsigned;
          expo = drop (Suc (length mant)) unsigned;
          ipart = takeWhile (\<lambda>c. c \<noteq> CHR ''.'') mant;
          fpart = drop (Suc (length ipart)) mant;
          m = digits_val (ipart @ fpart);
          e10 = (if expo \<noteq> [] \<and> hd expo = CHR ''-'' then - digits_val (tl expo)
                 else if expo \<noteq> [] \<and> hd expo = CHR ''+'' then digits_val (tl expo)
                 else digits_val expo) - int (length fpart);
          limit = (2 :: int) ^ 1024 - 2 ^ 970
      in if 0 \<le> e10 then limit \<le> m * 10 ^ nat e10 else limit * 10 ^ nat (- e10) \<le> m)"

fun range_error :: "json \<Rightarrow> string option"
  and range_errors :: "json list \<Rightarrow> string option"
  and range_errors_members :: "(string \<times> json) list \<Rightarrow> string option"
where
  "range_error (JNumber lit) = (if float64_overflows lit then Some lit else None)"
| "range_error (JArray vs) = range_errors vs"
| "range_error (JObject kvs) = range_errors_members kvs"
| "range_error JNull = None"
| "range_error (JBool _) = None"
| "range_error (JString _) = None"
| "range_errors [] = None"
| "range_errors (v # vs) = (case range_error v of Some e \<Rightarrow> Some e | None \<Rightarrow> range_errors vs)"
| "range_errors_members [] = None"
| "range_errors_members (kv # kvs) =
     (case range_error (snd kv) of Some e \<Rightarrow> Some e | None \<Rightarrow> range_errors_members kvs)"

text \<open>
  A key selects the field whose name it equals under simple case folding; the only
  runes outside ASCII that fold to ASCII letters are U+017F (to S) and U+212A (to K).
\<close>

definition toUpper :: "char \<Rightarrow> char" where
  "toUpper c =
     (case map_of (zip ''abcdefghijklmnopqrstuvwxyz'' ''ABCDEFGHIJKLMNOPQRSTUVWXYZ'') c of
        Some u \<Rightarrow> u
      | None \<Rightarrow> c)"

fun foldName :: "string \<Rightarrow> string option" where
  "foldName [] = Some []"
| "foldName (c # cs) =
     (if (of_char c :: nat) < 0x80 then map_option ((#) (toUpper c)) (foldName cs)
      else (case cs of
              c1 # cs1 \<Rightarrow>
                if c = CHR 0xC5 \<and> c1 = CHR 0xBF then map_option ((#) CHR ''S'') (foldName cs1)
                else (case cs1 of
                        c2 # cs2 \<Rightarrow>
                          if c = CHR 0xE2 \<and> c1 = CHR 0x84 \<and> c2 = CHR 0xAA
                          then map_option ((#) CHR ''K'') (foldName cs2) else None
                      | [] \<Rightarrow> None)
            | [] \<Rightarrow> None))"

datatype field = f_is_finished | f_event_type | f_generation_id | f_text | f_finish_reason | f_tool_calls

definition field_of_key :: "string \<Rightarrow> field option" where
  "field_of_key key =
     (let k = foldName key in
      if k = Some ''IS_FINISHED'' then Some f_is_finished
      else if k = Some ''EVENT_TYPE'' then Some f_event_type
      else if k = Some ''GENERATION_ID'' then Some f_generation_id
      else if k = Some ''TEXT'' then Some f_text
      else if k = Some ''FINISH_REASON'' then Some f_finish_reason
      else if k = Some ''TOOL_CALLS'' then Some f_tool_calls
      else None)"

text \<open>
  Storing a value in a field: \<open>null\<close> leaves a \<open>bool\<close> or a \<open>string\<close> as it is and makes
  the slice nil; a value of the wrong kind is an \<open>UnmarshalTypeError\<close>. The decoder of
  Go keeps the first such error and goes on; \<open>resolve\<close> only looks at the error, so the
  model stops at it.
\<close>

fun kind_of :: "json \<Rightarrow> string" where
  "kind_of JNull = ''null''"
| "kind_of (JBool _) = ''bool''"
| "kind_of (JNumber _) = ''number''"
| "kind_of (JString _) = ''string''"
| "kind_of (JArray _) = ''array''"
| "kind_of (JObject _) = ''object''"

definition field_type_error :: "string \<Rightarrow> string \<Rightarrow> string \<Rightarrow> error" where
  "field_type_error val name ty =
     ErrOther (''json: cannot unmarshal '' @ val @ '' into Go struct field block.'' @ name
               @ '' of type '' @ ty)"

fun store_bool :: "string \<Rightarrow> json \<Rightarrow> bool \<Rightarrow> error + bool" where
  "store_bool name (JBool x) old = Inr x"
| "store_bool name JNull old = Inr old"
| "store_bool name v old = Inl (field_type_error (kind_of v) name ''bool'')"

fun store_string :: "string \<Rightarrow> json \<Rightarrow> string \<Rightarrow> error + string" where
  "store_string name (JString x) old = Inr x"
| "store_string name JNull old = Inr old"
| "store_string name v old = Inl (field_type_error (kind_of v) name ''string'')"

fun store_slice :: "string \<Rightarrow> json \<Rightarrow> json list option \<Rightarrow> error + json list option" where
  "store_slice name (JArray vs) old =
     (case range_errors vs of
        Some lit \<Rightarrow> Inl (field_type_error (''number '' @ lit) name ''float64'')
      | None \<Rightarrow> Inr (Some vs))"
| "store_slice name JNull old = Inr None"
| "store_slice name v old = Inl (field_type_error (kind_of v) name ''[]interface {}'')"

fun store :: "field \<Rightarrow> json \<Rightarrow> json list option block \<Rightarrow> error + json list option block" where
  "store f_is_finished v b = map_sum id (\<lambda>x. b\<lparr>Finished := x\<rparr>) (store_bool ''is_finished'' v (Finished b))"
| "store f_event_type v b = map_sum id (\<lambda>x. b\<lparr>Event := x\<rparr>) (store_string ''event_type'' v (Event b))"
| "store f_generation_id v b = map_sum id (\<lambda>x. b\<lparr>Id' := x\<rparr>) (store_string ''generation_id'' v (Id' b))"
| "store f_text v b = map_sum id (\<lambda>x. b\<lparr>Text := x\<rparr>) (store_string ''text'' v (Text b))"
| "store f_finish_reason v b = map_sum id (\<lambda>x. b\<lparr>Reason := x\<rparr>) (store_string ''finish_reason'' v (Reason b))"
| "store f_tool_calls v b = map_sum id (\<lambda>x. b\<lparr>ToolCalls := x\<rparr>) (store_slice ''tool_calls'' v (ToolCalls b))"

fun decode_members :: "bool \<Rightarrow> (string \<times> json) list \<Rightarrow> json list option block \<Rightarrow> error + json list option block" where
  "decode_members tc [] b = Inr b"
| "decode_members tc ((k, v) # kvs) b =
     (case field_of_key k of
        None \<Rightarrow> decode_members tc kvs b
      | Some f \<Rightarrow>
          if f = f_tool_calls \<and> \<not> tc then decode_members tc kvs b
          else (case store f v b of
                  Inl e \<Rightarrow> Inl e
                | Inr b' \<Rightarrow> decode_members tc kvs b'))"

definition zero_block :: "json list option block" where
  "zero_block = \<lparr>Finished = False, Event = [], Id' = [], Text = [], Reason = [], ToolCalls = None\<rparr>"

definition decode_block :: "bool \<Rightarrow> json \<Rightarrow> error + json list option block" where
  "decode_block tc v =
     (case v of
        JObject kvs \<Rightarrow> decode_members tc kvs zero_block
      | JNull \<Rightarrow> Inr zero_block
      | _ \<Rightarrow> Inl (ErrOther (''json: cannot unmarshal '' @ kind_of v
                            @ '' into Go value of type cohere.block'')))"

text \<open>
  \<open>json.Unmarshal(data, &b)\<close> for a fresh \<open>block\<close> of \<open>src/unnamed/part_000\<close>, and for
  one of \<open>src/chat.go\<close>, which has no field for the key \<open>tool_calls\<close>. The builder cannot
  fail on bytes that \<open>checkValid\<close> accepted; Go panics with \<open>phasePanicMsg\<close> there.
\<close>

definition phasePanicMsg :: string where
  "phasePanicMsg = ''JSON decoder out of sync - data changing underfoot?''"

definition Unmarshal_with :: "bool \<Rightarrow> string \<Rightarrow> error + json list option block" where
  "Unmarshal_with tc data =
     (case checkValid data of
        Some e \<Rightarrow> Inl e
      | None \<Rightarrow>
          (case parse_json data of
             None \<Rightarrow> Inl (ErrOther phasePanicMsg)
           | Some v \<Rightarrow> decode_block tc v))"

definition json_Unmarshal :: "string \<Rightarrow> error + json list option block" where
  "json_Unmarshal data = Unmarshal_with True data"

definition json_Unmarshal_chat_go :: "string \<Rightarrow> error + block_chat_go" where
  "json_Unmarshal_chat_go data = map_sum id block_chat_go.truncate (Unmarshal_with False data)"

section \<open>The stream resolver\<close>

text \<open>
  What \<open>resolve\<close> does to the world, in order: a send on the channel (the consumer is
  taken to receive every value, so that a send returns), the close of the response
  body, the close of the channel.
\<close>

datatype action = Send string | CloseBody | CloseChan

text \<open>
  The loop of \<open>resolve\<close> in \<open>src/unnamed/part_000\<close>. \<open>acc\<close> is the \<open>bytes.Buffer\<close> that
  gathers the fragments of a line; the result is the values sent, in order.
  \<open>Unmarshal\<close> stands for \<open>json.Unmarshal(buf.Bytes(), &b)\<close> on a fresh \<open>block\<close> and
  \<open>Marshal\<close> for \<open>json.Marshal(b.ToolCalls)\<close>: each returns its error or its result.
\<close>

function resolve_loop ::
  "(string \<Rightarrow> error + 'tc block) \<Rightarrow> ('tc \<Rightarrow> error + string) \<Rightarrow> string \<Rightarrow> Reader
   \<Rightarrow> string list"
where
  "resolve_loop Unmarshal Marshal acc r =
     (case ReadLine r of
        (line, prefix, e, r') \<Rightarrow>
          (let acc' = acc @ line in
           case e of
             Some x \<Rightarrow>
               (if x \<noteq> EOF then [''error: '' @ Error x] else []) @
               (if acc' \<noteq> [] then [''text: '' @ acc'] else [])
           | None \<Rightarrow>
               if prefix then resolve_loop Unmarshal Marshal acc' r'
               else
                 (case Unmarshal acc' of
                    Inl x \<Rightarrow> [''error: '' @ Error x]
                  | Inr b \<Rightarrow>
                      if Finished b then []
                      else if Event b = ''text-generation'' then
                        (''text: '' @ Text b) # resolve_loop Unmarshal Marshal [] r'
                      else if Event b = ''tool-calls-generation'' then
                        (case Marshal (ToolCalls b) of
                           Inl x \<Rightarrow> [''error: '' @ Error x]
                         | Inr marshal \<Rightarrow>
                             (''tool: '' @ marshal) # resolve_loop Unmarshal Marshal [] r')
                      else resolve_loop Unmarshal Marshal [] r')))"
  by pat_completeness auto
termination
  by (relation "measure (\<lambda>(U, M, acc, r). weight r)")
     (auto dest: ReadLine_progress[OF sym])

declare resolve_loop.simps [simp del]

text \<open>
  \<open>resolve\<close> defers \<open>close(ch)\<close> and then \<open>response.Body.Close()\<close>; deferred calls run
  last in, first out, whichever \<open>return\<close> ends the loop.
\<close>

definition resolve ::
  "(string \<Rightarrow> error + 'tc block) \<Rightarrow> ('tc \<Rightarrow> error + string) \<Rightarrow> body \<Rightarrow> action list"
where
  "resolve Unmarshal Marshal response_Body =
     map Send (resolve_loop Unmarshal Marshal [] (NewReader response_Body))
     @ [CloseBody, CloseChan]"

text \<open>
  The loop of \<open>resolve\<close> in \<open>src/chat.go\<close>: no tool calls, and the only deferred call is
  \<open>close(ch)\<close>.
\<close>

function resolve_chat_go_loop ::
  "(string \<Rightarrow> error + block_chat_go) \<Rightarrow> string \<Rightarrow> Reader \<Rightarrow> string list"
where
  "resolve_chat_go_loop Unmarshal acc r =
     (case ReadLine r of
        (line, prefix, e, r') \<Rightarrow>
          (let acc' = acc @ line in
           case e of
             Some x \<Rightarrow>
               (if x \<noteq> EOF then [''error: '' @ Error x] else []) @
               (if acc' \<noteq> [] then [''text: '' @ acc'] else [])
           | None \<Rightarrow>
               if prefix then resolve_chat_go_loop Unmarshal acc' r'
               else
                 (case Unmarshal acc' of
                    Inl x \<Rightarrow> [''error: '' @ Error x]
                  | Inr b \<Rightarrow>
                      if Finished b then []
                      else if Event b = ''text-generation'' then
                        (''text: '' @ Text b) # resolve_chat_go_loop Unmarshal [] r'
                      else resolve_chat_go_loop Unmarshal [] r')))"
  by pat_completeness auto
termination
  by (relation "measure (\<lambda>(U, acc, r). weight r)")
     (auto dest: ReadLine_progress[OF sym])

declare resolve_chat_go_loop.simps [simp del]

definition resolve_chat_go ::
  "(string \<Rightarrow> error + block_chat_go) \<Rightarrow> body \<Rightarrow> action list"
where
  "resolve_chat_go Unmarshal response_Body =
     map Send (resolve_chat_go_loop Unmarshal [] (NewReader response_Body))
     @ [CloseChan]"

section \<open>The loop, line by line\<close>

text \<open>
  The second description of the loop, written from the specification and not from the
  code, to compare the code with: the stream is a sequence of logical lines, and each
  line is handled on its own (steps 4 to 8 of the algorithm of the specification). A
  line that does not decode gives an error event and ends the stream; a finished block
  ends it without an event; a \<open>text-generation\<close> block gives a text event, a
  \<open>tool-calls-generation\<close> block a tool event (or an error event that ends the stream,
  when its payload cannot be encoded), and the lines that follow are handled in turn;
  any other block gives nothing. \<open>rest\<close> is what the lines that follow give.
\<close>

definition spec_dispatch ::
  "(string \<Rightarrow> error + 'tc block) \<Rightarrow> ('tc \<Rightarrow> error + string) \<Rightarrow> string \<Rightarrow> string list
   \<Rightarrow> string list"
where
  "spec_dispatch Unmarshal Marshal line rest =
     (case Unmarshal line of
        Inl x \<Rightarrow> [''error: '' @ Error x]
      | Inr b \<Rightarrow>
          if Finished b then []
          else if Event b = ''text-generation'' then (''text: '' @ Text b) # rest
          else if Event b = ''tool-calls-generation'' then
            (case Marshal (ToolCalls b) of
               Inl x \<Rightarrow> [''error: '' @ Error x]
             | Inr js \<Rightarrow> (''tool: '' @ js) # rest)
          else rest)"

definition spec_events ::
  "(string \<Rightarrow> error + 'tc block) \<Rightarrow> ('tc \<Rightarrow> error + string) \<Rightarrow> string list \<Rightarrow> string list"
where
  "spec_events Unmarshal Marshal ls = foldr (spec_dispatch Unmarshal Marshal) ls []"

text \<open>The same for the blocks of \<open>src/chat.go\<close>, which have no tool calls.\<close>

definition spec_dispatch_chat_go ::
  "(string \<Rightarrow> error + block_chat_go) \<Rightarrow> string \<Rightarrow> string list \<Rightarrow> string list"
where
  "spec_dispatch_chat_go Unmarshal line rest =
     (case Unmarshal line of
        Inl x \<Rightarrow> [''error: '' @ Error x]
      | Inr b \<Rightarrow>
          if Finished b then []
          else if Event b = ''text-generation'' then (''text: '' @ Text b) # rest
          else rest)"

definition spec_events_chat_go ::
  "(string \<Rightarrow> error + block_chat_go) \<Rightarrow> string list \<Rightarrow> string list"
where
  "spec_events_chat_go Unmarshal ls = foldr (spec_dispatch_chat_go Unmarshal) ls []"

text \<open>
  The bytes of a stream whose logical lines are \<open>ls\<close>, each followed by its line feed;
  and a logical line as the loop sees it, without the carriage return that may precede
  the line feed.
\<close>

definition terminated :: "string list \<Rightarrow> string" where
  "terminated ls = concat (map (\<lambda>l. l @ [CHR 0x0A]) ls)"

definition chomp :: "string \<Rightarrow> string" where
  "chomp l = (if l \<noteq> [] \<and> last l = CHR 0x0D then butlast l else l)"

section \<open>The payload builder\<close>

text \<open>
  A \<open>float32\<close> is its 32 bits. \<open>c.temperature < 0\<close> holds when the sign bit is set and the
  value is neither a NaN nor minus zero. The constant \<open>0.95\<close>, rounded to \<open>float32\<close>, is
  \<open>0x3F733333\<close> (exponent field 126, fraction \<open>0x733333\<close>).
\<close>

type_synonym float32 = "32 word"

definition float32_is_nan :: "float32 \<Rightarrow> bool" where
  "float32_is_nan w = (w AND 0x7F800000 = 0x7F800000 \<and> w AND 0x007FFFFF \<noteq> 0)"

definition float32_lt_zero :: "float32 \<Rightarrow> bool" where
  "float32_lt_zero w = (bit w 31 \<and> \<not> float32_is_nan w \<and> w AND 0x7FFFFFFF \<noteq> 0)"

definition float32_0_95 :: float32 where
  "float32_0_95 = 0x3F733333"

record Message =
  Role :: string
  Message :: string

record 'any ToolCall =
  Name :: string
  Description :: string
  Param :: "string \<rightharpoonup> 'any"

record 'any ToolResult =
  Call :: 'any
  Outputs :: "'any list"

record 'any ToolObject =
  Tools :: "'any ToolCall list"
  Results :: "'any ToolResult list"

text \<open>The values a payload (\<open>map[string]interface{}\<close>) holds.\<close>

datatype 'any pvalue =
    VString string
  | VBool bool
  | VFloat32 float32
  | VInt "64 word"
  | VInt32 "32 word"
  | VStrings "string list"
  | VMessages "Message list"
  | VTools "'any ToolCall list"
  | VResults "'any ToolResult list"

text \<open>\<open>Chat\<close> of \<open>src/unnamed/part_000\<close>, without the pointer to the HTTP session.\<close>

record Chat =
  temperature :: float32
  maxTokens :: "64 word"
  model :: string
  seed :: "64 word"
  token :: string
  proxies :: string
  isChat :: bool
  stopSequences :: "string list"
  topK :: "64 word"
  safety :: string

text \<open>
  \<open>makePayload\<close> has a pointer receiver: the builder it leaves behind is returned with
  the payload.
\<close>

definition makePayload ::
  "Chat \<Rightarrow> Message list \<Rightarrow> string \<Rightarrow> string \<Rightarrow> bool \<Rightarrow> 'any ToolObject
   \<Rightarrow> (string \<rightharpoonup> 'any pvalue) \<times> Chat"
where
  "makePayload c pMessages system message isChat' toolObject =
     (let c1 = (if float32_lt_zero (temperature c)
                then c\<lparr>temperature := float32_0_95\<rparr> else c);
          payload1 =
            (if isChat' then
               (let p = [''chat_history'' \<mapsto> VMessages pMessages,
                         ''connectors'' \<mapsto> VStrings [],
                         ''message'' \<mapsto> VString message,
                         ''model'' \<mapsto> VString (model c1),
                         ''preamble'' \<mapsto> VString system,
                         ''prompt_truncation'' \<mapsto> VString ''OFF'',
                         ''stream'' \<mapsto> VBool True,
                         ''temperature'' \<mapsto> VFloat32 (temperature c1),
                         ''tools'' \<mapsto> VTools (Tools toolObject),
                         ''tool_results'' \<mapsto> VResults (Results toolObject)];
                    p = (if 0 <s seed c1 then p(''seed'' \<mapsto> VInt (seed c1)) else p);
                    p = (if safety c1 \<noteq> [] then p(''safety_mode'' \<mapsto> VString (safety c1))
                         else p)
                in p)
             else
               [''k'' \<mapsto> VInt (topK c1),
                ''model'' \<mapsto> VString (model c1),
                ''max_tokens'' \<mapsto> VInt (maxTokens c1),
                ''prompt'' \<mapsto> VString message,
                ''raw_prompting'' \<mapsto> VBool False,
                ''stream'' \<mapsto> VBool True,
                ''temperature'' \<mapsto> VFloat32 (temperature c1)]);
          payload2 =
            (if stopSequences c1 \<noteq> []
             then payload1(''stop_sequences'' \<mapsto> VStrings (stopSequences c1))
             else payload1)
      in (payload2, c1))"

text \<open>\<open>Chat\<close> and \<open>makePayload\<close> of \<open>src/chat.go\<close>.\<close>

record Chat_chat_go =
  temperature_cg :: float32
  model_cg :: string
  seed_cg :: "32 word"
  token_cg :: string
  proxies_cg :: string

definition makePayload_chat_go ::
  "Chat_chat_go \<Rightarrow> Message list \<Rightarrow> string \<Rightarrow> string
   \<Rightarrow> (string \<rightharpoonup> unit pvalue) \<times> Chat_chat_go"
where
  "makePayload_chat_go c pMessages system message =
     (let c1 = (if float32_lt_zero (temperature_cg c)
                then c\<lparr>temperature_cg := float32_0_95\<rparr> else c);
          p = [''chat_history'' \<mapsto> VMessages pMessages,
               ''connectors'' \<mapsto> VStrings [],
               ''message'' \<mapsto> VString message,
               ''model'' \<mapsto> VString (model_cg c1),
               ''preamble'' \<mapsto> VString system,
               ''prompt_truncation'' \<mapsto> VString ''OFF'',
               ''stream'' \<mapsto> VBool True,
               ''temperature'' \<mapsto> VFloat32 (temperature_cg c1)];
          p = (if 0 <s seed_cg c1 then p(''seed'' \<mapsto> VInt32 (seed_cg c1)) else p)
      in (p, c1))"

section \<open>The streams and builders of the examples\<close>

text \<open>The reader at the end of a stream that has been read to its last byte.\<close>

definition drained :: Reader where
  "drained = \<lparr>buf = [], rd = [], err = None\<rparr>"

text \<open>
  The lines of the examples, and the answers of \<open>json.Marshal\<close> in them (\<open>json.Marshal\<close>
  is a parameter of the model): \<open>example_Marshal\<close> prints the payload back in compact
  form, which is what Go returns for the payload of \<open>tool_line\<close>; \<open>failing_Marshal\<close>
  refuses every payload.
\<close>

definition nl :: string where
  "nl = [CHR 0x0A]"

definition hello_line :: string where
  "hello_line = ''{\"is_finished\":false,\"event_type\":\"text-generation\",\"text\":\"hello\"}''"

definition finish_line :: string where
  "finish_line = ''{\"is_finished\":true,\"event_type\":\"text-generation\",\"text\":\"ignored\",\"finish_reason\":\"COMPLETE\"}''"

definition tool_line :: string where
  "tool_line = ''{\"is_finished\":false,\"event_type\":\"tool-calls-generation\",\"tool_calls\":[{\"name\":\"search\",\"parameters\":{\"q\":\"isabelle\"}}]}''"


fun compact :: "json \<Rightarrow> string"
  and compact_list :: "json list \<Rightarrow> string"
  and compact_members :: "(string \<times> json) list \<Rightarrow> string"
where
  "compact JNull = ''null''"
| "compact (JBool b) = (if b then ''true'' else ''false'')"
| "compact (JNumber lit) = lit"
| "compact (JString s) = [CHR 0x22] @ s @ [CHR 0x22]"
| "compact (JArray vs) = ''['' @ compact_list vs @ '']''"
| "compact (JObject kvs) = ''{'' @ compact_members kvs @ ''}''"
| "compact_list [] = []"
| "compact_list (v # vs) = compact v @ (if vs = [] then [] else '','' @ compact_list vs)"
| "compact_members [] = []"
| "compact_members (kv # kvs) =
     [CHR 0x22] @ fst kv @ [CHR 0x22] @ '':'' @ compact (snd kv)
     @ (if kvs = [] then [] else '','' @ compact_members kvs)"

definition example_Marshal :: "json list option \<Rightarrow> error + string" where
  "example_Marshal tc = Inr (case tc of None \<Rightarrow> ''null'' | Some vs \<Rightarrow> compact (JArray vs))"


text \<open>The first line of the examples in two pieces, and a line end of two bytes.\<close>

definition hello_a :: string where
  "hello_a = ''{\"is_finished\":false,\"event_''"

definition hello_b :: string where
  "hello_b = ''type\":\"text-generation\",\"text\":\"hello\"}''"

definition crlf :: string where
  "crlf = [CHR 0x0D, CHR 0x0A]"

text \<open>A line that is longer than the buffer of the reader.\<close>

definition long_head :: string where
  "long_head = ''{\"event_type\":\"text-generation\",\"text\":\"''"

definition long_line :: string where
  "long_line = long_head @ replicate 5000 (CHR ''a'') @ ''\"}''"

text \<open>
  The builders of the examples: \<open>New(token, -1, model, true)\<close> (the bits \<open>0xBF800000\<close>
  are \<open>-1\<close>) and the same builder with temperature \<open>0.7\<close> (\<open>0x3F333333\<close>).
\<close>

definition unset_chat :: Chat where
  "unset_chat = \<lparr>temperature = 0xBF800000, maxTokens = 4096, model = ''command-r'',
     seed = - 1, token = ''key'', proxies = [], isChat = True, stopSequences = [],
     topK = 40, safety = []\<rparr>"

definition warm_chat :: Chat where
  "warm_chat = unset_chat\<lparr>temperature := 0x3F333333\<rparr>"

definition unset_chat_go :: Chat_chat_go where
  "unset_chat_go = \<lparr>temperature_cg = 0xBF800000, model_cg = ''command-r'', seed_cg = 0,
     token_cg = ''key'', proxies_cg = []\<rparr>"

definition no_tools :: "unit ToolObject" where
  "no_tools = \<lparr>Tools = [], Results = []\<rparr>"

section \<open>Running the model on a given stream\<close>

text \<open>One turn of \<open>fill\<close>, for the simplifier.\<close>

lemma fill_step:
  "fill b =
     (case Read (defaultBufSize - length (buf b)) (rd b) of
        (d, e, rd') \<Rightarrow>
          (case e of
             Some x \<Rightarrow> b\<lparr>buf := buf b @ d, rd := rd', err := Some x\<rparr>
           | None \<Rightarrow> if d \<noteq> [] then b\<lparr>buf := buf b @ d, rd := rd'\<rparr>
                     else fill_loop 99 (b\<lparr>buf := buf b @ d, rd := rd'\<rparr>)))"
proof -
  have "fill b = fill_loop (Suc 99) b"
    by (simp add: fill_def maxConsecutiveEmptyReads_def)
  also have "\<dots> = (case Read (defaultBufSize - length (buf b)) (rd b) of
        (d, e, rd') \<Rightarrow>
          (case e of
             Some x \<Rightarrow> b\<lparr>buf := buf b @ d, rd := rd', err := Some x\<rparr>
           | None \<Rightarrow> if d \<noteq> [] then b\<lparr>buf := buf b @ d, rd := rd'\<rparr>
                     else fill_loop 99 (b\<lparr>buf := buf b @ d, rd := rd'\<rparr>)))"
    unfolding fill_loop.simps by (simp add: Let_def split: prod.splits option.splits)
  finally show ?thesis .
qed

lemmas scan_defs = checkValid_def scan_eof_def scan_stateBeginValue_def
  scan_stateBeginString_def scan_stateEndValue_def scan_stateEndTop_def scan_state0_def
  scan_stateESign_def expect_def pushParseState_def popParseState_def isSpace_def
  isDigit_def isHex_def maxNestingDepth_def syntax_error_def quoteChar_def hexdigit_def

lemmas json_defs = json_Unmarshal_def json_Unmarshal_chat_go_def Unmarshal_with_def scan_defs
  parse_json_def structural_def literal_value_def decode_block_def field_of_key_def
  zero_block_def toUpper_def block_chat_go.truncate_def

lemmas read_defs = NewReader_def ReadLine_def ReadSlice.simps fill_step defaultBufSize_def

lemma ReadLine_drained: "ReadLine drained = ([], False, Some EOF, drained)"
  by (simp add: drained_def read_defs)

lemma resolve_loop_drained:
  "resolve_loop Unmarshal Marshal [] drained = []"
  "resolve_chat_go_loop Unmarshal' [] drained = []"
  by (simp_all add: resolve_loop.simps resolve_chat_go_loop.simps ReadLine_drained)

lemma json_Unmarshal_hello_line:
  "json_Unmarshal hello_line
     = Inr (zero_block\<lparr>Event := ''text-generation'', Text := ''hello''\<rparr>)"
  "json_Unmarshal_chat_go hello_line
     = Inr \<lparr>Finished = False, Event = ''text-generation'', Id' = [], Text = ''hello'',
            Reason = []\<rparr>"
  by (simp_all add: hello_line_def json_defs)

lemma json_Unmarshal_finish_line:
  "json_Unmarshal finish_line
     = Inr (zero_block\<lparr>Finished := True, Event := ''text-generation'', Text := ''ignored'',
              Reason := ''COMPLETE''\<rparr>)"
  "json_Unmarshal_chat_go finish_line
     = Inr \<lparr>Finished = True, Event = ''text-generation'', Id' = [], Text = ''ignored'',
            Reason = ''COMPLETE''\<rparr>"
  by (simp_all add: finish_line_def json_defs)


lemma json_Unmarshal_empty:
  "json_Unmarshal [] = Inl (ErrOther ''unexpected end of JSON input'')"
  "json_Unmarshal_chat_go [] = Inl (ErrOther ''unexpected end of JSON input'')"
  by (simp_all add: json_defs)


lemma json_Unmarshal_oops:
  "json_Unmarshal ''oops''
     = Inl (ErrOther ''invalid character 'o' looking for beginning of value'')"
  "json_Unmarshal_chat_go ''oops''
     = Inl (ErrOther ''invalid character 'o' looking for beginning of value'')"
  by (simp_all add: json_defs)

lemma IndexByte_replicate: "x \<noteq> c \<Longrightarrow> IndexByte (replicate n x) c = None"
  by (induction n) auto

text \<open>The decoder on a long run of the same letter.\<close>

lemma scan_bytes_run:
  "scan_bytes stateInString ps (replicate n (CHR ''a'') @ rest) = scan_bytes stateInString ps rest"
  by (induction n) auto

lemma build_run:
  "build (InStr acc False) st res (replicate n (CHR ''a'') @ rest)
     = build (InStr (acc @ replicate n (CHR ''a'')) False) st res rest"
proof (induction n arbitrary: acc)
  case 0
  then show ?case by simp
next
  case (Suc n)
  have "build (InStr acc False) st res (replicate (Suc n) (CHR ''a'') @ rest)
        = build (InStr (acc @ [CHR ''a'']) False) st res (replicate n (CHR ''a'') @ rest)"
    by simp
  also have "\<dots> = build (InStr ((acc @ [CHR ''a'']) @ replicate n (CHR ''a'')) False) st res rest"
    by (rule Suc.IH)
  finally show ?case by (simp add: replicate_app_Cons_same)
qed

lemma unquote_run: "unquote (replicate n (CHR ''a'')) = replicate n (CHR ''a'')"
  by (induction n) auto

lemma json_Unmarshal_long_line:
  "json_Unmarshal long_line
     = Inr (zero_block\<lparr>Event := ''text-generation'', Text := replicate 5000 (CHR ''a'')\<rparr>)"
proof -
  let ?pre = "''{\"event_type\":\"text-generation\",\"text\":\"''"
  let ?run = "replicate 5000 (CHR ''a'')"
  let ?post = "''\"}''"
  have "scan_bytes stateBeginValue [] (?pre @ ?run @ ?post)
        = scan_bytes stateInString [parseObjectValue] (?run @ ?post)"
    by (simp add: scan_defs)
  also have "\<dots> = scan_bytes stateInString [parseObjectValue] ?post"
    by (rule scan_bytes_run)
  also have "\<dots> = Inr (stateEndTop, [])"
    by (simp add: scan_defs)
  finally have valid: "checkValid long_line = None"
    by (simp add: checkValid_def long_line_def long_head_def scan_eof_def)
  have "build InSpace [] None (?pre @ ?run @ ?post)
        = build (InStr [] False)
            [FObject [(''event_type'', JString ''text-generation'')] (Some ''text'')] None
            (?run @ ?post)"
    by (simp add: structural_def isSpace_def)
  also have "\<dots> = build (InStr ([] @ ?run) False)
            [FObject [(''event_type'', JString ''text-generation'')] (Some ''text'')] None ?post"
    by (rule build_run)
  also have "\<dots> = Some (JObject [(''event_type'', JString ''text-generation''),
                                  (''text'', JString ?run)])"
    by (simp add: structural_def isSpace_def unquote_run)
  finally have parsed: "parse_json long_line
        = Some (JObject [(''event_type'', JString ''text-generation''), (''text'', JString ?run)])"
    by (simp add: parse_json_def long_line_def long_head_def)
  show ?thesis
    by (simp add: json_Unmarshal_def Unmarshal_with_def valid parsed decode_block_def
        field_of_key_def toUpper_def zero_block_def)
qed

section \<open>What the loop does with one read\<close>


text \<open>
  C4. When a read completes a line and the bytes gathered for it do not decode, the loop
  sends one event, \<open>error: \<close> followed by the description of the decode error, and
  returns: the reader is not asked for another line and nothing else is sent before the
  deferred calls run. Both versions of \<open>resolve\<close> do so.
\<close>

theorem decode_error_ends_the_stream:
  "ReadLine r = (line, False, None, r') \<Longrightarrow>
   (Unmarshal (acc @ line) = Inl x \<longrightarrow>
      resolve_loop Unmarshal Marshal acc r = [''error: '' @ Error x])
   \<and> (Unmarshal' (acc @ line) = Inl x' \<longrightarrow>
      resolve_chat_go_loop Unmarshal' acc r = [''error: '' @ Error x'])"
  by (simp add: resolve_loop.simps[of _ _ acc r] resolve_chat_go_loop.simps[of _ acc r])

theorem decode_error_ends_the_stream_witness:
  "resolve json_Unmarshal example_Marshal [(''oops'' @ nl @ hello_line @ nl, None)]
     = [Send ''error: invalid character 'o' looking for beginning of value'',
        CloseBody, CloseChan]
   \<and> resolve_chat_go json_Unmarshal_chat_go [(''oops'' @ nl @ hello_line @ nl, None)]
     = [Send ''error: invalid character 'o' looking for beginning of value'', CloseChan]"
proof -
  have rl: "ReadLine (NewReader [(''oops'' @ nl @ hello_line @ nl, None)])
            = (''oops'', False, None, \<lparr>buf = hello_line @ nl, rd = [], err = None\<rparr>)"
    by (simp add: read_defs hello_line_def nl_def)
  from decode_error_ends_the_stream[OF rl, where acc = "[]" and Unmarshal = json_Unmarshal
      and Unmarshal' = json_Unmarshal_chat_go and Marshal = example_Marshal
      and x = "ErrOther ''invalid character 'o' looking for beginning of value''"
      and x' = "ErrOther ''invalid character 'o' looking for beginning of value''"]
    json_Unmarshal_oops
  show ?thesis
    by (simp add: resolve_def resolve_chat_go_def)
qed

text \<open>
  C6. When a read completes a line and the bytes gathered for it decode to a block whose
  \<open>Finished\<close> flag is set, the loop returns at once: it sends nothing for that line and
  nothing after it, whatever the other fields of the block are. Both versions do so.
\<close>

theorem finished_ends_the_stream:
  "ReadLine r = (line, False, None, r') \<Longrightarrow>
   (Unmarshal (acc @ line) = Inr b \<and> Finished b \<longrightarrow>
      resolve_loop Unmarshal Marshal acc r = [])
   \<and> (Unmarshal' (acc @ line) = Inr b' \<and> Finished b' \<longrightarrow>
      resolve_chat_go_loop Unmarshal' acc r = [])"
  by (simp add: resolve_loop.simps[of _ _ acc r] resolve_chat_go_loop.simps[of _ acc r])

theorem finished_ends_the_stream_witness:
  "resolve json_Unmarshal example_Marshal [(finish_line @ nl @ hello_line @ nl, None)]
     = [CloseBody, CloseChan]
   \<and> resolve_chat_go json_Unmarshal_chat_go [(finish_line @ nl @ hello_line @ nl, None)]
     = [CloseChan]"
proof -
  have rl: "ReadLine (NewReader [(finish_line @ nl @ hello_line @ nl, None)])
            = (finish_line, False, None, \<lparr>buf = hello_line @ nl, rd = [], err = None\<rparr>)"
    by (simp add: read_defs finish_line_def hello_line_def nl_def)
  from finished_ends_the_stream[OF rl, where acc = "[]" and Unmarshal = json_Unmarshal
      and Unmarshal' = json_Unmarshal_chat_go and Marshal = example_Marshal
      and b = "zero_block\<lparr>Finished := True, Event := ''text-generation'',
                 Text := ''ignored'', Reason := ''COMPLETE''\<rparr>"
      and b' = "\<lparr>Finished = True, Event = ''text-generation'', Id' = [], Text = ''ignored'',
                 Reason = ''COMPLETE''\<rparr>"]
    json_Unmarshal_finish_line
  show ?thesis
    by (simp add: resolve_def resolve_chat_go_def)
qed

text \<open>
  C7. When a read completes a line and the bytes gathered for it decode to a block that
  is not finished and whose event type is \<open>text-generation\<close>, the loop sends exactly one
  event, \<open>text: \<close> followed by the text of the block, and goes on with the next line on
  an empty buffer. Both versions do so. The line with text \<open>hello\<close> gives \<open>text: hello\<close>.
\<close>

theorem text_generation_event:
  "ReadLine r = (line, False, None, r') \<Longrightarrow>
   (Unmarshal (acc @ line) = Inr b \<and> \<not> Finished b \<and> Event b = ''text-generation'' \<longrightarrow>
      resolve_loop Unmarshal Marshal acc r
        = (''text: '' @ Text b) # resolve_loop Unmarshal Marshal [] r')
   \<and> (Unmarshal' (acc @ line) = Inr b' \<and> \<not> Finished b' \<and> Event b' = ''text-generation'' \<longrightarrow>
      resolve_chat_go_loop Unmarshal' acc r
        = (''text: '' @ Text b') # resolve_chat_go_loop Unmarshal' [] r')"
  by (simp add: resolve_loop.simps[of _ _ acc r] resolve_chat_go_loop.simps[of _ acc r])

theorem text_generation_event_witness:
  "resolve json_Unmarshal example_Marshal [(hello_line @ nl, None)]
     = [Send ''text: hello'', CloseBody, CloseChan]
   \<and> resolve_chat_go json_Unmarshal_chat_go [(hello_line @ nl, None)]
     = [Send ''text: hello'', CloseChan]"
proof -
  have rl: "ReadLine (NewReader [(hello_line @ nl, None)]) = (hello_line, False, None, drained)"
    by (simp add: read_defs hello_line_def nl_def drained_def)
  from text_generation_event[OF rl, where acc = "[]" and Unmarshal = json_Unmarshal
      and Unmarshal' = json_Unmarshal_chat_go and Marshal = example_Marshal
      and b = "zero_block\<lparr>Event := ''text-generation'', Text := ''hello''\<rparr>"
      and b' = "\<lparr>Finished = False, Event = ''text-generation'', Id' = [], Text = ''hello'',
                 Reason = []\<rparr>"]
    json_Unmarshal_hello_line
  show ?thesis
    by (simp add: resolve_def resolve_chat_go_def resolve_loop_drained zero_block_def)
qed



text \<open>
  C10. When a read completes a line of no bytes on an empty buffer (a newline, or a
  carriage return and a newline, right after the previous line end), the empty byte
  sequence goes to the decoder, which rejects it as an unexpected end of the input; the
  loop sends that one error event and returns. An empty line is not skipped. Both
  versions do so.
\<close>

theorem empty_line_ends_the_stream:
  "ReadLine r = ([], False, None, r') \<Longrightarrow>
   resolve_loop json_Unmarshal Marshal [] r = [''error: unexpected end of JSON input'']
   \<and> resolve_chat_go_loop json_Unmarshal_chat_go [] r
       = [''error: unexpected end of JSON input'']"
  by (simp add: resolve_loop.simps[of _ _ "[]" r] resolve_chat_go_loop.simps[of _ "[]" r]
      json_Unmarshal_empty)

theorem empty_line_ends_the_stream_witness:
  "resolve json_Unmarshal example_Marshal [(nl @ hello_line @ nl, None)]
     = [Send ''error: unexpected end of JSON input'', CloseBody, CloseChan]
   \<and> resolve_chat_go json_Unmarshal_chat_go [(nl @ hello_line @ nl, None)]
     = [Send ''error: unexpected end of JSON input'', CloseChan]"
proof -
  have rl: "ReadLine (NewReader [(nl @ hello_line @ nl, None)])
            = ([], False, None, \<lparr>buf = hello_line @ nl, rd = [], err = None\<rparr>)"
    by (simp add: read_defs hello_line_def nl_def)
  from empty_line_ends_the_stream[OF rl, of example_Marshal]
  show ?thesis
    by (simp add: resolve_def resolve_chat_go_def)
qed

section \<open>Chunk boundaries\<close>

text \<open>
  What \<open>ReadSlice\<close> returns depends on the bytes that are still to come, not on the
  chunks they come in. \<open>flat b s eo tail\<close> says that the reader \<open>b\<close> has the bytes \<open>s\<close>
  before it, partly in its buffer and partly in chunks that are not read yet, that they
  end with the error \<open>eo\<close> when there is one (pending in the reader, or still attached
  to the last of the chunks), and that the script goes on with \<open>tail\<close>.
\<close>

definition flat :: "Reader \<Rightarrow> string \<Rightarrow> error option \<Rightarrow> body \<Rightarrow> bool" where
  "flat b s eo tail \<longleftrightarrow>
     length (buf b) \<le> defaultBufSize
     \<and> ((err b = None
          \<and> (\<exists>cs. [] \<notin> set cs
                \<and> (case eo of
                      None \<Rightarrow> rd b = pure_chunks cs @ tail \<and> buf b @ concat cs = s
                    | Some x \<Rightarrow>
                        (\<exists>d. d \<noteq> [] \<and> rd b = pure_chunks cs @ (d, Some x) # tail
                             \<and> buf b @ concat cs @ d = s))))
        \<or> (eo \<noteq> None \<and> err b = eo \<and> buf b = s \<and> rd b = tail))"

lemma flat_plain:
  "length u \<le> defaultBufSize \<Longrightarrow> [] \<notin> set cs \<Longrightarrow>
   flat \<lparr>buf = u, rd = pure_chunks cs @ tail, err = None\<rparr> (u @ concat cs) None tail"
  by (auto simp: flat_def)

lemma flat_with:
  "length u \<le> defaultBufSize \<Longrightarrow> [] \<notin> set cs \<Longrightarrow> d \<noteq> [] \<Longrightarrow>
   flat \<lparr>buf = u, rd = pure_chunks cs @ (d, Some x) # tail, err = None\<rparr>
     (u @ concat cs @ d) (Some x) tail"
  by (auto simp: flat_def)

lemma flat_pending:
  "length u \<le> defaultBufSize \<Longrightarrow>
   flat \<lparr>buf = u, rd = tail, err = Some x\<rparr> u (Some x) tail"
  by (auto simp: flat_def)

lemma Reader_eq: "(b :: Reader) = \<lparr>buf = buf b, rd = rd b, err = err b\<rparr>"
  by (cases b) simp

text \<open>The three shapes of such a reader.\<close>

lemma flat_cases:
  assumes "flat b s eo tail"
  obtains
    (plain) cs where "eo = None" "[] \<notin> set cs"
      "b = \<lparr>buf = buf b, rd = pure_chunks cs @ tail, err = None\<rparr>" "buf b @ concat cs = s"
      "length (buf b) \<le> defaultBufSize"
  | (attached) cs d x where "eo = Some x" "[] \<notin> set cs" "d \<noteq> []"
      "b = \<lparr>buf = buf b, rd = pure_chunks cs @ (d, Some x) # tail, err = None\<rparr>"
      "buf b @ concat cs @ d = s" "length (buf b) \<le> defaultBufSize"
  | (pending) x where "eo = Some x" "b = \<lparr>buf = s, rd = tail, err = Some x\<rparr>"
      "length s \<le> defaultBufSize"
proof -
  from assms have len: "length (buf b) \<le> defaultBufSize" by (simp add: flat_def)
  from assms consider
      (a) "err b = None" "eo = None" "\<exists>cs. [] \<notin> set cs \<and> rd b = pure_chunks cs @ tail \<and> buf b @ concat cs = s"
    | (b) x where "err b = None" "eo = Some x"
        "\<exists>cs d. [] \<notin> set cs \<and> d \<noteq> [] \<and> rd b = pure_chunks cs @ (d, Some x) # tail
            \<and> buf b @ concat cs @ d = s"
    | (c) x where "eo = Some x" "err b = Some x" "buf b = s" "rd b = tail"
    by (cases eo) (auto simp: flat_def)
  then show ?thesis
  proof cases
    case a
    then obtain cs where "[] \<notin> set cs" "rd b = pure_chunks cs @ tail" "buf b @ concat cs = s"
      by blast
    then show ?thesis using plain[of cs] a(1,2) len Reader_eq[of b] by simp
  next
    case b
    then obtain cs d where "[] \<notin> set cs" "d \<noteq> []"
      "rd b = pure_chunks cs @ (d, Some x) # tail" "buf b @ concat cs @ d = s"
      by blast
    then show ?thesis using attached[of x cs d] b(1,2) len Reader_eq[of b] by simp
  next
    case c
    then show ?thesis using pending[of x] len Reader_eq[of b] by simp
  qed
qed


lemma flat_prefix: "flat b s eo tail \<Longrightarrow> \<exists>t. s = buf b @ t"
  by (cases eo) (auto simp: flat_def)

lemma flat_drop:
  "flat b s eo tail \<Longrightarrow> n \<le> length (buf b) \<Longrightarrow>
   flat (b\<lparr>buf := drop n (buf b)\<rparr>) (drop n s) eo tail"
  by (cases eo) (auto simp: flat_def)

lemma fill_flat:
  assumes u: "length u < defaultBufSize"
  shows "[] \<notin> set (c # cs) \<Longrightarrow>
         flat (fill \<lparr>buf = u, rd = pure_chunks (c # cs) @ tail, err = None\<rparr>)
           (u @ concat (c # cs)) None tail"
    and "[] \<notin> set (c # cs) \<Longrightarrow> d \<noteq> [] \<Longrightarrow>
         flat (fill \<lparr>buf = u, rd = pure_chunks (c # cs) @ (d, Some x) # tail, err = None\<rparr>)
           (u @ concat (c # cs) @ d) (Some x) tail"
    and "d \<noteq> [] \<Longrightarrow>
         flat (fill \<lparr>buf = u, rd = (d, Some x) # tail, err = None\<rparr>) (u @ d) (Some x) tail"
proof -
  let ?k = "defaultBufSize - length u"
  have k: "0 < ?k" using u by simp
  have td: "take ?k y @ drop ?k y @ r = y @ r" for y r :: string
    by (simp flip: append_assoc)
  {
    assume c: "[] \<notin> set (c # cs)"
    then have cne: "c \<noteq> []" by auto
    show "flat (fill \<lparr>buf = u, rd = pure_chunks (c # cs) @ tail, err = None\<rparr>)
           (u @ concat (c # cs)) None tail"
    proof (cases "length c \<le> ?k")
      case True
      then have "fill \<lparr>buf = u, rd = pure_chunks (c # cs) @ tail, err = None\<rparr>
                 = \<lparr>buf = u @ c, rd = pure_chunks cs @ tail, err = None\<rparr>"
        using cne by (simp add: fill_step pure_chunks_def)
      then show ?thesis using flat_plain[of "u @ c" cs tail] True u c by simp
    next
      case False
      then have "fill \<lparr>buf = u, rd = pure_chunks (c # cs) @ tail, err = None\<rparr>
                 = \<lparr>buf = u @ take ?k c, rd = pure_chunks (drop ?k c # cs) @ tail, err = None\<rparr>"
        using cne k by (simp add: fill_step pure_chunks_def)
      then show ?thesis
        using flat_plain[of "u @ take ?k c" "drop ?k c # cs" tail] False u c by (simp add: td)
    qed
  }
  {
    assume c: "[] \<notin> set (c # cs)" and d: "d \<noteq> []"
    then have cne: "c \<noteq> []" by auto
    show "flat (fill \<lparr>buf = u, rd = pure_chunks (c # cs) @ (d, Some x) # tail, err = None\<rparr>)
           (u @ concat (c # cs) @ d) (Some x) tail"
    proof (cases "length c \<le> ?k")
      case True
      then have "fill \<lparr>buf = u, rd = pure_chunks (c # cs) @ (d, Some x) # tail, err = None\<rparr>
                 = \<lparr>buf = u @ c, rd = pure_chunks cs @ (d, Some x) # tail, err = None\<rparr>"
        using cne by (simp add: fill_step pure_chunks_def)
      then show ?thesis using flat_with[of "u @ c" cs d x tail] True u c d by simp
    next
      case False
      then have "fill \<lparr>buf = u, rd = pure_chunks (c # cs) @ (d, Some x) # tail, err = None\<rparr>
                 = \<lparr>buf = u @ take ?k c,
                    rd = pure_chunks (drop ?k c # cs) @ (d, Some x) # tail, err = None\<rparr>"
        using cne k by (simp add: fill_step pure_chunks_def)
      then show ?thesis
        using flat_with[of "u @ take ?k c" "drop ?k c # cs" d x tail] False u c d
        by (simp add: td)
    qed
  }
  {
    assume d: "d \<noteq> []"
    show "flat (fill \<lparr>buf = u, rd = (d, Some x) # tail, err = None\<rparr>) (u @ d) (Some x) tail"
    proof (cases "length d \<le> ?k")
      case True
      then have "fill \<lparr>buf = u, rd = (d, Some x) # tail, err = None\<rparr>
                 = \<lparr>buf = u @ d, rd = tail, err = Some x\<rparr>"
        by (simp add: fill_step)
      then show ?thesis using flat_pending[where u = "u @ d" and x = x and tail = tail] True u by simp
    next
      case False
      then have "fill \<lparr>buf = u, rd = (d, Some x) # tail, err = None\<rparr>
                 = \<lparr>buf = u @ take ?k d, rd = pure_chunks [] @ (drop ?k d, Some x) # tail,
                    err = None\<rparr>"
        using d k by (simp add: fill_step pure_chunks_def)
      then show ?thesis
        using flat_with[of "u @ take ?k d" "[]" "drop ?k d" x tail] False u by (simp add: td)
    qed
  }
qed

lemma IndexByte_append:
  "IndexByte (xs @ ys) c =
     (case IndexByte xs c of
        Some i \<Rightarrow> Some i
      | None \<Rightarrow> map_option (\<lambda>i. length xs + i) (IndexByte ys c))"
  by (induction xs) (cases "IndexByte ys c"; auto split: option.splits)+

lemma ReadSlice_flat:
  "flat b s eo tail \<Longrightarrow> ReadSlice b = (l, e, b') \<Longrightarrow>
   (\<exists>i. IndexByte (take defaultBufSize s) (CHR 0x0A) = Some i \<and> l = take (Suc i) s
        \<and> e = None \<and> flat b' (drop (Suc i) s) eo tail)
   \<or> (IndexByte (take defaultBufSize s) (CHR 0x0A) = None \<and> defaultBufSize \<le> length s
        \<and> (defaultBufSize < length s \<or> eo = None)
        \<and> l = take defaultBufSize s \<and> e = Some ErrBufferFull \<and> buf b' = []
        \<and> flat b' (drop defaultBufSize s) eo tail)
   \<or> (IndexByte (take defaultBufSize s) (CHR 0x0A) = None \<and> length s < defaultBufSize
        \<and> eo = None \<and> ReadSlice \<lparr>buf = s, rd = tail, err = None\<rparr> = (l, e, b'))
   \<or> (IndexByte (take defaultBufSize s) (CHR 0x0A) = None \<and> length s \<le> defaultBufSize
        \<and> eo \<noteq> None \<and> l = s \<and> e = eo \<and> b' = \<lparr>buf = [], rd = tail, err = None\<rparr>)"
proof (induction b arbitrary: l e b' rule: ReadSlice.induct)
  case (1 b)
  note fl = "1.prems"(1)
  from flat_prefix[OF fl] obtain t where t: "s = buf b @ t" by blast
  have len: "length (buf b) \<le> defaultBufSize" using fl by (simp add: flat_def)
  have tk: "take defaultBufSize s = buf b @ take (defaultBufSize - length (buf b)) t"
    using t len by simp
  show ?case
  proof (cases "IndexByte (buf b) (CHR 0x0A)")
    case (Some i)
    have lt: "i < length (buf b)" using Some by (rule IndexByte_less)
    from "1.prems"(2) Some have res: "l = take (i + 1) (buf b)" "e = None"
      "b' = b\<lparr>buf := drop (i + 1) (buf b)\<rparr>"
      by (simp_all add: ReadSlice.simps[of b])
    have "IndexByte (take defaultBufSize s) (CHR 0x0A) = Some i"
      unfolding tk using Some by (simp add: IndexByte_append)
    moreover have "l = take (Suc i) s" using res(1) lt t by simp
    moreover have "flat b' (drop (Suc i) s) eo tail"
      using flat_drop[OF fl, of "Suc i"] lt res(3) by simp
    ultimately show ?thesis using res(2) by blast
  next
    case None
    note nl = this
    show ?thesis
    proof (cases "err b")
      case (Some x)
      from fl Some have shape: "eo = Some x" "buf b = s" "rd b = tail"
        by (cases eo; auto simp: flat_def)+
      from "1.prems"(2) nl Some have res: "l = buf b" "e = Some x"
        "b' = b\<lparr>buf := [], err := None\<rparr>"
        by (simp_all add: ReadSlice.simps[of b])
      have "b' = \<lparr>buf = [], rd = tail, err = None\<rparr>"
        using res(3) shape(3) Reader_eq[of b] by (cases b) simp
      moreover have "IndexByte (take defaultBufSize s) (CHR 0x0A) = None"
        using nl shape(2) len by simp
      ultimately show ?thesis using res shape len by simp
    next
      case noerr: None
      show ?thesis
      proof (cases "defaultBufSize \<le> length (buf b)")
        case True
        then have full: "length (buf b) = defaultBufSize" using len by simp
        from "1.prems"(2) nl noerr True have res: "l = buf b" "e = Some ErrBufferFull"
          "b' = b\<lparr>buf := []\<rparr>"
          by (simp_all add: ReadSlice.simps[of b])
        have tks: "take defaultBufSize s = buf b" using t full by simp
        have "flat b' (drop defaultBufSize s) eo tail"
          using flat_drop[OF fl, of defaultBufSize] full res(3) by simp
        moreover have "defaultBufSize < length s \<or> eo = None"
          using fl noerr full by (cases eo) (auto simp: flat_def)
        moreover have "defaultBufSize \<le> length s" using t full by simp
        ultimately show ?thesis using res tks nl by simp
      next
        case False
        then have rec: "ReadSlice (fill b) = (l, e, b')"
          using "1.prems"(2) nl noerr by (simp add: ReadSlice.simps[of b])
        have u: "length (buf b) < defaultBufSize" using False by simp
        from fl show ?thesis
        proof (cases rule: flat_cases)
          case (plain cs)
          show ?thesis
          proof (cases cs)
            case Nil
            then have "b = \<lparr>buf = s, rd = tail, err = None\<rparr>"
              using plain by (simp add: pure_chunks_def)
            moreover have "IndexByte (take defaultBufSize s) (CHR 0x0A) = None"
              using nl Nil plain(4) False by simp
            moreover have "length s < defaultBufSize" using Nil plain(4) False by simp
            ultimately show ?thesis using "1.prems"(2) plain(1) by simp
          next
            case (Cons c cs')
            have "flat (fill b) s eo tail"
              using fill_flat(1)[OF u, of c cs' tail] plain Cons by simp
            from "1.IH"[OF nl noerr False this rec] show ?thesis .
          qed
        next
          case (attached cs d x)
          have "flat (fill b) s eo tail"
          proof (cases cs)
            case Nil
            then show ?thesis
              using fill_flat(3)[OF u, of d x tail] attached by (simp add: pure_chunks_def)
          next
            case (Cons c cs')
            then show ?thesis
              using fill_flat(2)[OF u, of c cs' d x tail] attached by simp
          qed
          from "1.IH"[OF nl noerr False this rec] show ?thesis .
        next
          case (pending x)
          then show ?thesis using noerr by (cases b) simp
        qed
      qed
    qed
  qed
qed


definition alike :: "body \<Rightarrow> Reader \<Rightarrow> Reader \<Rightarrow> bool" where
  "alike tail b1 b2 \<longleftrightarrow> b1 = b2 \<or> (\<exists>s eo. flat b1 s eo tail \<and> flat b2 s eo tail)"

lemma flat_put_back:
  "flat b s eo tail \<Longrightarrow> buf b = [] \<Longrightarrow> flat (b\<lparr>buf := [c]\<rparr>) (c # s) eo tail"
  by (cases eo) (auto simp: flat_def defaultBufSize_def)

lemma ReadLine_flat:
  assumes f1: "flat b1 s eo tail" and f2: "flat b2 s eo tail"
    and r1: "ReadLine b1 = (l1, p1, e1, b1')" and r2: "ReadLine b2 = (l2, p2, e2, b2')"
  shows "l1 = l2 \<and> p1 = p2 \<and> e1 = e2 \<and> alike tail b1' b2'"
proof -
  obtain x1 y1 c1 where s1: "ReadSlice b1 = (x1, y1, c1)" by (cases "ReadSlice b1") auto
  obtain x2 y2 c2 where s2: "ReadSlice b2 = (x2, y2, c2)" by (cases "ReadSlice b2") auto
  note a1 = ReadSlice_flat[OF f1 s1] and a2 = ReadSlice_flat[OF f2 s2]
  consider
    (found) i where "IndexByte (take defaultBufSize s) (CHR 0x0A) = Some i"
      "x1 = take (Suc i) s" "x2 = take (Suc i) s" "y1 = None" "y2 = None"
      "flat c1 (drop (Suc i) s) eo tail" "flat c2 (drop (Suc i) s) eo tail"
  | (full) "x1 = take defaultBufSize s" "x2 = take defaultBufSize s"
      "y1 = Some ErrBufferFull" "y2 = Some ErrBufferFull" "buf c1 = []" "buf c2 = []"
      "flat c1 (drop defaultBufSize s) eo tail" "flat c2 (drop defaultBufSize s) eo tail"
  | (same) "x1 = x2" "y1 = y2" "c1 = c2"
    using a1 a2 by (elim disjE) auto
  then show ?thesis
  proof cases
    case found
    have i: "i < length s"
      using IndexByte_less[OF found(1)] by simp
    then have ne: "take (Suc i) s \<noteq> []" by (cases s) auto
    have "ReadLine b1 = (fst (ReadLine b1), False, None, c1)"
      using s1 found ne by (simp add: ReadLine_def Let_def)
    moreover have "ReadLine b2 = (fst (ReadLine b2), False, None, c2)"
      using s2 found ne by (simp add: ReadLine_def Let_def)
    moreover have "fst (ReadLine b1) = fst (ReadLine b2)"
      using s1 s2 found by (simp add: ReadLine_def Let_def)
    ultimately show ?thesis using r1 r2 found(6,7) by (auto simp: alike_def)
  next
    case full
    show ?thesis
    proof (cases "x1 \<noteq> [] \<and> last x1 = CHR 0x0D")
      case True
      then have "ReadLine b1 = (butlast x1, True, None, c1\<lparr>buf := [last x1]\<rparr>)"
        and "ReadLine b2 = (butlast x1, True, None, c2\<lparr>buf := [last x1]\<rparr>)"
        using s1 s2 full by (simp_all add: ReadLine_def)
      moreover have "alike tail (c1\<lparr>buf := [last x1]\<rparr>) (c2\<lparr>buf := [last x1]\<rparr>)"
        unfolding alike_def
        using flat_put_back[OF full(7) full(5)] flat_put_back[OF full(8) full(6)] by blast
      ultimately show ?thesis using r1 r2 by auto
    next
      case False
      then have "ReadLine b1 = (x1, True, None, c1)" and "ReadLine b2 = (x1, True, None, c2)"
        using s1 s2 full by (auto simp: ReadLine_def)
      then show ?thesis using r1 r2 full(7,8) by (auto simp: alike_def)
    qed
  next
    case same
    then have "ReadLine b1 = ReadLine b2" using s1 s2 by (simp add: ReadLine_def)
    then show ?thesis using r1 r2 by (simp add: alike_def)
  qed
qed

lemma ReadLine_alike:
  assumes "alike tail b1 b2"
  obtains l p e b1' b2' where "ReadLine b1 = (l, p, e, b1')" "ReadLine b2 = (l, p, e, b2')"
    "alike tail b1' b2'"
proof -
  obtain l1 p1 e1 b1' where r1: "ReadLine b1 = (l1, p1, e1, b1')"
    by (cases "ReadLine b1") auto
  obtain l2 p2 e2 b2' where r2: "ReadLine b2 = (l2, p2, e2, b2')"
    by (cases "ReadLine b2") auto
  have "l1 = l2 \<and> p1 = p2 \<and> e1 = e2 \<and> alike tail b1' b2'"
  proof (cases "b1 = b2")
    case True
    then show ?thesis using r1 r2 by (simp add: alike_def)
  next
    case False
    then obtain s eo where "flat b1 s eo tail" "flat b2 s eo tail"
      using assms by (auto simp: alike_def)
    from ReadLine_flat[OF this r1 r2] show ?thesis .
  qed
  then show ?thesis using that r1 r2 by blast
qed

lemma resolve_loop_alike:
  "alike tail b1 b2 \<Longrightarrow>
   resolve_loop Unmarshal Marshal acc b1 = resolve_loop Unmarshal Marshal acc b2"
proof (induction "weight b1" arbitrary: b1 b2 acc rule: less_induct)
  case less
  from ReadLine_alike[OF less.prems] obtain l p e b1' b2' where
    r: "ReadLine b1 = (l, p, e, b1')" "ReadLine b2 = (l, p, e, b2')" and a: "alike tail b1' b2'"
    by blast
  show ?case
  proof (cases e)
    case (Some x)
    then show ?thesis
      using r by (simp add: resolve_loop.simps[of _ _ acc b1] resolve_loop.simps[of _ _ acc b2])
  next
    case None
    then have "weight b1' < weight b1" using r(1) ReadLine_progress by blast
    then have ih: "\<And>acc'. resolve_loop Unmarshal Marshal acc' b1'
                         = resolve_loop Unmarshal Marshal acc' b2'"
      using less.hyps a by blast
    show ?thesis
      using r None
      by (auto simp: resolve_loop.simps[of _ _ acc b1] resolve_loop.simps[of _ _ acc b2] ih
          Let_def split: sum.splits)
  qed
qed

lemma resolve_chat_go_loop_alike:
  "alike tail b1 b2 \<Longrightarrow>
   resolve_chat_go_loop Unmarshal acc b1 = resolve_chat_go_loop Unmarshal acc b2"
proof (induction "weight b1" arbitrary: b1 b2 acc rule: less_induct)
  case less
  from ReadLine_alike[OF less.prems] obtain l p e b1' b2' where
    r: "ReadLine b1 = (l, p, e, b1')" "ReadLine b2 = (l, p, e, b2')" and a: "alike tail b1' b2'"
    by blast
  show ?case
  proof (cases e)
    case (Some x)
    then show ?thesis
      using r by (simp add: resolve_chat_go_loop.simps[of _ acc b1]
          resolve_chat_go_loop.simps[of _ acc b2])
  next
    case None
    then have "weight b1' < weight b1" using r(1) ReadLine_progress by blast
    then have ih: "\<And>acc'. resolve_chat_go_loop Unmarshal acc' b1'
                         = resolve_chat_go_loop Unmarshal acc' b2'"
      using less.hyps a by blast
    show ?thesis
      using r None
      by (auto simp: resolve_chat_go_loop.simps[of _ acc b1]
          resolve_chat_go_loop.simps[of _ acc b2] ih Let_def split: sum.splits)
  qed
qed

lemma alike_plain:
  "[] \<notin> set cs1 \<Longrightarrow> [] \<notin> set cs2 \<Longrightarrow> concat cs1 = concat cs2 \<Longrightarrow>
   alike tail (NewReader (pure_chunks cs1 @ tail)) (NewReader (pure_chunks cs2 @ tail))"
  unfolding alike_def NewReader_def
  using flat_plain[of "[]" cs1 tail] flat_plain[of "[]" cs2 tail]
  by auto

lemma alike_with:
  "[] \<notin> set cs1 \<Longrightarrow> [] \<notin> set cs2 \<Longrightarrow> d1 \<noteq> [] \<Longrightarrow> d2 \<noteq> [] \<Longrightarrow>
   concat cs1 @ d1 = concat cs2 @ d2 \<Longrightarrow>
   alike tail (NewReader (pure_chunks cs1 @ (d1, Some x) # tail))
              (NewReader (pure_chunks cs2 @ (d2, Some x) # tail))"
  unfolding alike_def NewReader_def
  using flat_with[of "[]" cs1 d1 x tail] flat_with[of "[]" cs2 d2 x tail]
  by auto

subsection \<open>One logical line after the other\<close>

text \<open>
  A logical line and its line feed, whatever the chunks it comes in and however many
  fragments the reader cuts it into, is gathered in the buffer of the loop and handled
  as the specification says; so are the lines of a whole stream.
\<close>

lemma chomp_append:
  "y \<noteq> [] \<Longrightarrow> chomp (x @ y) = x @ chomp y"
  by (auto simp: chomp_def butlast_append)

lemma IndexByte_first:
  "c \<notin> set xs \<Longrightarrow> IndexByte (xs @ c # ys) c = Some (length xs)"
  by (induction xs) auto

lemma IndexByte_None: "c \<notin> set xs \<Longrightarrow> IndexByte xs c = None"
  by (induction xs) auto

lemma ReadLine_short_line:
  assumes fl: "flat b (l @ CHR 0x0A # rest) eo tail" and nl: "CHR 0x0A \<notin> set l"
    and short: "length l < defaultBufSize"
  shows "\<exists>b'. flat b' rest eo tail \<and> ReadLine b = (chomp l, False, None, b')"
proof -
  let ?s = "l @ CHR 0x0A # rest"
  obtain x y c where rs: "ReadSlice b = (x, y, c)" by (cases "ReadSlice b") auto
  have ix: "IndexByte (take defaultBufSize ?s) (CHR 0x0A) = Some (length l)"
  proof -
    have "take defaultBufSize ?s = l @ CHR 0x0A # take (defaultBufSize - Suc (length l)) rest"
      using short by (simp add: take_Cons')
    then show ?thesis using nl by (simp add: IndexByte_first)
  qed
  from ReadSlice_flat[OF fl rs] ix
  have res: "x = take (Suc (length l)) ?s" "y = None" "flat c (drop (Suc (length l)) ?s) eo tail"
    by auto
  have x: "x = l @ [CHR 0x0A]" using res(1) by simp
  have "ReadLine b = (chomp l, False, None, c)"
  proof (cases "l \<noteq> [] \<and> last l = CHR 0x0D")
    case True
    then have "(l @ [CHR 0x0A]) ! (length l - 1) = CHR 0x0D"
      by (cases l rule: rev_cases) (auto simp: nth_append)
    then show ?thesis using rs x res(2) True
      by (auto simp: ReadLine_def Let_def chomp_def butlast_conv_take)
  next
    case False
    then have "l = [] \<or> (l @ [CHR 0x0A]) ! (length l - 1) \<noteq> CHR 0x0D"
      by (cases l rule: rev_cases) (auto simp: nth_append)
    then show ?thesis using rs x res(2) False
      by (auto simp: ReadLine_def Let_def chomp_def)
  qed
  then show ?thesis using res(3) by auto
qed

lemma ReadLine_fragment:
  assumes fl: "flat b (l @ CHR 0x0A # rest) eo tail" and nl: "CHR 0x0A \<notin> set l"
    and long: "defaultBufSize \<le> length l"
  shows "\<exists>b' frag l'. flat b' (l' @ CHR 0x0A # rest) eo tail \<and> CHR 0x0A \<notin> set l'
           \<and> length l' < length l \<and> frag @ chomp l' = chomp l
           \<and> ReadLine b = (frag, True, None, b')"
proof -
  let ?s = "l @ CHR 0x0A # rest"
  let ?N = defaultBufSize
  obtain x y c where rs: "ReadSlice b = (x, y, c)" by (cases "ReadSlice b") auto
  have N: "2 \<le> ?N" by (simp add: defaultBufSize_def)
  have tk: "take ?N ?s = take ?N l" using long by simp
  have "IndexByte (take ?N ?s) (CHR 0x0A) = None"
    unfolding tk using nl by (auto intro!: IndexByte_None dest: in_set_takeD)
  moreover have "?N < length ?s" using long by simp
  ultimately have res: "x = take ?N l" "y = Some ErrBufferFull" "buf c = []"
    "flat c (drop ?N ?s) eo tail"
    using ReadSlice_flat[OF fl rs] tk by auto
  have d: "drop ?N ?s = drop ?N l @ CHR 0x0A # rest" using long by simp
  have xne: "x \<noteq> []" using res(1) long N by (cases l) auto
  show ?thesis
  proof (cases "last x = CHR 0x0D")
    case True
    let ?l' = "CHR 0x0D # drop ?N l"
    have rl: "ReadLine b = (butlast x, True, None, c\<lparr>buf := [CHR 0x0D]\<rparr>)"
      using rs res xne True by (simp add: ReadLine_def)
    have "flat (c\<lparr>buf := [CHR 0x0D]\<rparr>) (?l' @ CHR 0x0A # rest) eo tail"
      using flat_put_back[OF res(4) res(3), of "CHR 0x0D"] d by simp
    moreover have "CHR 0x0A \<notin> set ?l'" using nl by (auto dest: in_set_dropD)
    moreover have "length ?l' < length l" using long N by simp
    moreover have "butlast x @ chomp ?l' = chomp l"
    proof -
      have "l = butlast x @ ?l'"
        using True xne res(1) append_take_drop_id[of ?N l]
        by (metis append.assoc append_Cons append_Nil append_butlast_last_id)
      then have "chomp l = chomp (butlast x @ ?l')" by simp
      then show ?thesis by (simp add: chomp_append)
    qed
    ultimately show ?thesis using rl by blast
  next
    case False
    let ?l' = "drop ?N l"
    have rl: "ReadLine b = (x, True, None, c)"
      using rs res xne False by (simp add: ReadLine_def)
    have "flat c (?l' @ CHR 0x0A # rest) eo tail" using res(4) d by simp
    moreover have "CHR 0x0A \<notin> set ?l'" using nl by (auto dest: in_set_dropD)
    moreover have "length ?l' < length l" using long N by simp
    moreover have "x @ chomp ?l' = chomp l"
    proof (cases "?l' = []")
      case True
      then have "l = x" using res(1) by simp
      then show ?thesis using True False xne by (simp add: chomp_def)
    next
      case F: False
      have "chomp l = chomp (x @ ?l')" using res(1) by simp
      then show ?thesis using F by (simp add: chomp_append)
    qed
    ultimately show ?thesis using rl by blast
  qed
qed

lemma resolve_loop_line:
  "flat b (l @ CHR 0x0A # rest) eo tail \<Longrightarrow> CHR 0x0A \<notin> set l \<Longrightarrow>
   \<exists>b'. flat b' rest eo tail
      \<and> (\<forall>acc. resolve_loop Unmarshal Marshal acc b
             = spec_dispatch Unmarshal Marshal (acc @ chomp l) (resolve_loop Unmarshal Marshal [] b'))"
proof (induction "length l" arbitrary: l b rule: less_induct)
  case less
  show ?case
  proof (cases "length l < defaultBufSize")
    case True
    from ReadLine_short_line[OF less.prems True] obtain b' where
      b': "flat b' rest eo tail" "ReadLine b = (chomp l, False, None, b')" by blast
    have "resolve_loop Unmarshal Marshal acc b
          = spec_dispatch Unmarshal Marshal (acc @ chomp l) (resolve_loop Unmarshal Marshal [] b')"
      for acc
      using b'(2) by (simp add: resolve_loop.simps[of _ _ acc b] spec_dispatch_def Let_def
          split: sum.splits)
    then show ?thesis using b'(1) by blast
  next
    case False
    then have "defaultBufSize \<le> length l" by simp
    from ReadLine_fragment[OF less.prems this] obtain b1 frag l' where
      f: "flat b1 (l' @ CHR 0x0A # rest) eo tail" "CHR 0x0A \<notin> set l'" "length l' < length l"
        "frag @ chomp l' = chomp l" "ReadLine b = (frag, True, None, b1)"
      by blast
    from less.hyps[OF f(3) f(1) f(2)] obtain b' where
      b': "flat b' rest eo tail"
        "\<And>acc. resolve_loop Unmarshal Marshal acc b1
             = spec_dispatch Unmarshal Marshal (acc @ chomp l') (resolve_loop Unmarshal Marshal [] b')"
      by blast
    have "resolve_loop Unmarshal Marshal acc b
          = spec_dispatch Unmarshal Marshal (acc @ chomp l) (resolve_loop Unmarshal Marshal [] b')"
      for acc
    proof -
      have "resolve_loop Unmarshal Marshal acc b = resolve_loop Unmarshal Marshal (acc @ frag) b1"
        using f(5) by (simp add: resolve_loop.simps[of _ _ acc b])
      also have "\<dots> = spec_dispatch Unmarshal Marshal ((acc @ frag) @ chomp l')
                         (resolve_loop Unmarshal Marshal [] b')"
        by (rule b'(2))
      finally show ?thesis using f(4) by simp
    qed
    then show ?thesis using b'(1) by blast
  qed
qed


lemma resolve_chat_go_loop_line:
  "flat b (l @ CHR 0x0A # rest) eo tail \<Longrightarrow> CHR 0x0A \<notin> set l \<Longrightarrow>
   \<exists>b'. flat b' rest eo tail
      \<and> (\<forall>acc. resolve_chat_go_loop Unmarshal acc b
             = spec_dispatch_chat_go Unmarshal (acc @ chomp l) (resolve_chat_go_loop Unmarshal [] b'))"
proof (induction "length l" arbitrary: l b rule: less_induct)
  case less
  show ?case
  proof (cases "length l < defaultBufSize")
    case True
    from ReadLine_short_line[OF less.prems True] obtain b' where
      b': "flat b' rest eo tail" "ReadLine b = (chomp l, False, None, b')" by blast
    have "resolve_chat_go_loop Unmarshal acc b
          = spec_dispatch_chat_go Unmarshal (acc @ chomp l) (resolve_chat_go_loop Unmarshal [] b')"
      for acc
      using b'(2) by (simp add: resolve_chat_go_loop.simps[of _ acc b] spec_dispatch_chat_go_def
          Let_def split: sum.splits)
    then show ?thesis using b'(1) by blast
  next
    case False
    then have "defaultBufSize \<le> length l" by simp
    from ReadLine_fragment[OF less.prems this] obtain b1 frag l' where
      f: "flat b1 (l' @ CHR 0x0A # rest) eo tail" "CHR 0x0A \<notin> set l'" "length l' < length l"
        "frag @ chomp l' = chomp l" "ReadLine b = (frag, True, None, b1)"
      by blast
    from less.hyps[OF f(3) f(1) f(2)] obtain b' where
      b': "flat b' rest eo tail"
        "\<And>acc. resolve_chat_go_loop Unmarshal acc b1
             = spec_dispatch_chat_go Unmarshal (acc @ chomp l') (resolve_chat_go_loop Unmarshal [] b')"
      by blast
    have "resolve_chat_go_loop Unmarshal acc b
          = spec_dispatch_chat_go Unmarshal (acc @ chomp l) (resolve_chat_go_loop Unmarshal [] b')"
      for acc
    proof -
      have "resolve_chat_go_loop Unmarshal acc b = resolve_chat_go_loop Unmarshal (acc @ frag) b1"
        using f(5) by (simp add: resolve_chat_go_loop.simps[of _ acc b])
      also have "\<dots> = spec_dispatch_chat_go Unmarshal ((acc @ frag) @ chomp l')
                         (resolve_chat_go_loop Unmarshal [] b')"
        by (rule b'(2))
      finally show ?thesis using f(4) by simp
    qed
    then show ?thesis using b'(1) by blast
  qed
qed

lemma resolve_loop_lines:
  "flat b (terminated ls @ rest) eo tail \<Longrightarrow> \<forall>l \<in> set ls. CHR 0x0A \<notin> set l \<Longrightarrow>
   \<exists>b'. flat b' rest eo tail
      \<and> resolve_loop Unmarshal Marshal [] b
          = foldr (spec_dispatch Unmarshal Marshal) (map chomp ls) (resolve_loop Unmarshal Marshal [] b')"
proof (induction ls arbitrary: b)
  case Nil
  then show ?case by (auto simp: terminated_def)
next
  case (Cons l ls)
  have "flat b (l @ CHR 0x0A # (terminated ls @ rest)) eo tail"
    using Cons.prems(1) by (simp add: terminated_def)
  from resolve_loop_line[OF this, of Unmarshal Marshal] Cons.prems(2) obtain b1 where
    b1: "flat b1 (terminated ls @ rest) eo tail"
      "resolve_loop Unmarshal Marshal [] b
         = spec_dispatch Unmarshal Marshal (chomp l) (resolve_loop Unmarshal Marshal [] b1)"
    by force
  from Cons.IH[OF b1(1)] Cons.prems(2) obtain b' where
    "flat b' rest eo tail"
    "resolve_loop Unmarshal Marshal [] b1
       = foldr (spec_dispatch Unmarshal Marshal) (map chomp ls) (resolve_loop Unmarshal Marshal [] b')"
    by auto
  then show ?case using b1(2) by auto
qed

lemma resolve_chat_go_loop_lines:
  "flat b (terminated ls @ rest) eo tail \<Longrightarrow> \<forall>l \<in> set ls. CHR 0x0A \<notin> set l \<Longrightarrow>
   \<exists>b'. flat b' rest eo tail
      \<and> resolve_chat_go_loop Unmarshal [] b
          = foldr (spec_dispatch_chat_go Unmarshal) (map chomp ls) (resolve_chat_go_loop Unmarshal [] b')"
proof (induction ls arbitrary: b)
  case Nil
  then show ?case by (auto simp: terminated_def)
next
  case (Cons l ls)
  have "flat b (l @ CHR 0x0A # (terminated ls @ rest)) eo tail"
    using Cons.prems(1) by (simp add: terminated_def)
  from resolve_chat_go_loop_line[OF this, of Unmarshal] Cons.prems(2) obtain b1 where
    b1: "flat b1 (terminated ls @ rest) eo tail"
      "resolve_chat_go_loop Unmarshal [] b
         = spec_dispatch_chat_go Unmarshal (chomp l) (resolve_chat_go_loop Unmarshal [] b1)"
    by force
  from Cons.IH[OF b1(1)] Cons.prems(2) obtain b' where
    "flat b' rest eo tail"
    "resolve_chat_go_loop Unmarshal [] b1
       = foldr (spec_dispatch_chat_go Unmarshal) (map chomp ls) (resolve_chat_go_loop Unmarshal [] b')"
    by auto
  then show ?case using b1(2) by auto
qed

text \<open>The end of the stream after bytes that no line feed follows.\<close>

lemma ReadLine_tail:
  assumes fl: "flat b t None []" and nl: "CHR 0x0A \<notin> set t" and short: "length t < defaultBufSize"
  shows "ReadLine b = (if t = [] then ([], False, Some EOF, drained) else (t, False, None, drained))"
proof -
  obtain x y c where rs: "ReadSlice b = (x, y, c)" by (cases "ReadSlice b") auto
  have ix: "IndexByte t (CHR 0x0A) = None" using nl by (rule IndexByte_None)
  then have "IndexByte (take defaultBufSize t) (CHR 0x0A) = None" using short by simp
  with ReadSlice_flat[OF fl rs] short
  have "ReadSlice \<lparr>buf = t, rd = [], err = None\<rparr> = (x, y, c)" by auto
  moreover have "ReadSlice \<lparr>buf = t, rd = [], err = None\<rparr> = (t, Some EOF, drained)"
    using ix short
    by (simp add: ReadSlice.simps[of "\<lparr>buf = t, rd = [], err = None\<rparr>"] fill_at_end
        ReadSlice.simps[of "\<lparr>buf = t, rd = [], err = Some EOF\<rparr>"] drained_def)
  ultimately have "ReadSlice b = (t, Some EOF, drained)" using rs by simp
  moreover have "t \<noteq> [] \<Longrightarrow> last t \<noteq> CHR 0x0A" using nl last_in_set by fastforce
  ultimately show ?thesis by (auto simp: ReadLine_def)
qed

lemma resolve_loop_tail:
  assumes "flat b t None []" "CHR 0x0A \<notin> set t" "length t < defaultBufSize"
  shows "resolve_loop Unmarshal Marshal [] b
           = foldr (spec_dispatch Unmarshal Marshal) (if t = [] then [] else [t]) []"
    and "resolve_chat_go_loop Unmarshal' [] b
           = foldr (spec_dispatch_chat_go Unmarshal') (if t = [] then [] else [t]) []"
  using ReadLine_tail[OF assms]
  by (auto simp: resolve_loop.simps[of _ _ "[]" b] resolve_chat_go_loop.simps[of _ "[]" b]
      spec_dispatch_def spec_dispatch_chat_go_def resolve_loop_drained split: sum.splits)

lemma resolve_line_by_line:
  assumes "[] \<notin> set cs" "\<forall>l \<in> set ls. CHR 0x0A \<notin> set l" "CHR 0x0A \<notin> set t"
    "length t < defaultBufSize" "concat cs = terminated ls @ t"
  shows "resolve Unmarshal Marshal (pure_chunks cs)
           = map Send (spec_events Unmarshal Marshal (map chomp ls @ (if t = [] then [] else [t])))
             @ [CloseBody, CloseChan]"
    and "resolve_chat_go Unmarshal' (pure_chunks cs)
           = map Send (spec_events_chat_go Unmarshal' (map chomp ls @ (if t = [] then [] else [t])))
             @ [CloseChan]"
proof -
  have fl: "flat (NewReader (pure_chunks cs)) (terminated ls @ t) None []"
    using flat_plain[of "[]" cs "[]"] assms(1,5) by (simp add: NewReader_def)
  from resolve_loop_lines[OF fl assms(2), of Unmarshal Marshal] obtain b' where
    "flat b' t None []"
    "resolve_loop Unmarshal Marshal [] (NewReader (pure_chunks cs))
       = foldr (spec_dispatch Unmarshal Marshal) (map chomp ls) (resolve_loop Unmarshal Marshal [] b')"
    by blast
  then show "resolve Unmarshal Marshal (pure_chunks cs)
           = map Send (spec_events Unmarshal Marshal (map chomp ls @ (if t = [] then [] else [t])))
             @ [CloseBody, CloseChan]"
    using resolve_loop_tail(1)[OF _ assms(3,4), of b' Unmarshal Marshal]
    by (simp add: resolve_def spec_events_def)
  from resolve_chat_go_loop_lines[OF fl assms(2), of Unmarshal'] obtain b' where
    "flat b' t None []"
    "resolve_chat_go_loop Unmarshal' [] (NewReader (pure_chunks cs))
       = foldr (spec_dispatch_chat_go Unmarshal') (map chomp ls) (resolve_chat_go_loop Unmarshal' [] b')"
    by blast
  then show "resolve_chat_go Unmarshal' (pure_chunks cs)
           = map Send (spec_events_chat_go Unmarshal' (map chomp ls @ (if t = [] then [] else [t])))
             @ [CloseChan]"
    using resolve_loop_tail(2)[OF _ assms(3,4), of b' Unmarshal']
    by (simp add: resolve_chat_go_def spec_events_chat_go_def)
qed

text \<open>
  C1. The events do not depend on how the bytes of the stream are cut into chunks. Let
  the same bytes arrive in two ways, each a run of non-empty chunks, and let the script
  go on in the same way after them (\<open>tail\<close>: the end of the stream, an error on a read
  of its own, or anything else). Then \<open>resolve\<close> does the same in both cases; and it
  still does when the last of the bytes come together with an error (such as
  \<open>io.EOF\<close>), wherever the chunk that carries it begins. A fragment of a line that is
  longer than the buffer of the reader (\<open>isPrefix\<close>) is appended to the bytes gathered
  so far and the loop reads on, without decoding and without an event. And the lines
  come out as they went in: when the bytes are the logical lines \<open>ls\<close>, each of any
  length and followed by its line feed, and then bytes \<open>t\<close> that no line feed follows
  and that fit in the buffer of the reader, the events are those of the loop of the
  specification on these lines, one after the other, and on \<open>t\<close> when it is not empty.
  Both versions of \<open>resolve\<close> do so.
\<close>

theorem chunk_boundaries_do_not_matter:
  "[] \<notin> set cs1 \<Longrightarrow> [] \<notin> set cs2 \<Longrightarrow>
   (concat cs1 = concat cs2 \<longrightarrow>
      resolve Unmarshal Marshal (pure_chunks cs1 @ tail)
        = resolve Unmarshal Marshal (pure_chunks cs2 @ tail)
      \<and> resolve_chat_go Unmarshal' (pure_chunks cs1 @ tail)
        = resolve_chat_go Unmarshal' (pure_chunks cs2 @ tail))
   \<and> (d1 \<noteq> [] \<and> d2 \<noteq> [] \<and> concat cs1 @ d1 = concat cs2 @ d2 \<longrightarrow>
      resolve Unmarshal Marshal (pure_chunks cs1 @ (d1, Some x) # tail)
        = resolve Unmarshal Marshal (pure_chunks cs2 @ (d2, Some x) # tail)
      \<and> resolve_chat_go Unmarshal' (pure_chunks cs1 @ (d1, Some x) # tail)
        = resolve_chat_go Unmarshal' (pure_chunks cs2 @ (d2, Some x) # tail))
   \<and> (ReadLine r = (line, True, None, r') \<longrightarrow>
      resolve_loop Unmarshal Marshal acc r = resolve_loop Unmarshal Marshal (acc @ line) r'
      \<and> resolve_chat_go_loop Unmarshal' acc r = resolve_chat_go_loop Unmarshal' (acc @ line) r')
   \<and> ((\<forall>l \<in> set ls. CHR 0x0A \<notin> set l) \<and> CHR 0x0A \<notin> set t \<and> length t < defaultBufSize
        \<and> concat cs1 = terminated ls @ t \<longrightarrow>
      resolve Unmarshal Marshal (pure_chunks cs1)
        = map Send (spec_events Unmarshal Marshal
                      (map chomp ls @ (if t = [] then [] else [t])))
          @ [CloseBody, CloseChan]
      \<and> resolve_chat_go Unmarshal' (pure_chunks cs1)
        = map Send (spec_events_chat_go Unmarshal'
                      (map chomp ls @ (if t = [] then [] else [t])))
          @ [CloseChan])"
proof -
  assume n: "[] \<notin> set cs1" "[] \<notin> set cs2"
  have plain: "resolve Unmarshal Marshal (pure_chunks cs1 @ tail)
        = resolve Unmarshal Marshal (pure_chunks cs2 @ tail)
      \<and> resolve_chat_go Unmarshal' (pure_chunks cs1 @ tail)
        = resolve_chat_go Unmarshal' (pure_chunks cs2 @ tail)"
    if "concat cs1 = concat cs2"
    using alike_plain[OF n that, of tail]
    by (simp add: resolve_def resolve_chat_go_def resolve_loop_alike[of tail]
        resolve_chat_go_loop_alike[of tail])
  have attached: "resolve Unmarshal Marshal (pure_chunks cs1 @ (d1, Some x) # tail)
        = resolve Unmarshal Marshal (pure_chunks cs2 @ (d2, Some x) # tail)
      \<and> resolve_chat_go Unmarshal' (pure_chunks cs1 @ (d1, Some x) # tail)
        = resolve_chat_go Unmarshal' (pure_chunks cs2 @ (d2, Some x) # tail)"
    if "d1 \<noteq> []" "d2 \<noteq> []" "concat cs1 @ d1 = concat cs2 @ d2"
    using alike_with[OF n that, of tail x]
    by (simp add: resolve_def resolve_chat_go_def resolve_loop_alike[of tail]
        resolve_chat_go_loop_alike[of tail])
  have fragment: "resolve_loop Unmarshal Marshal acc r
        = resolve_loop Unmarshal Marshal (acc @ line) r'
      \<and> resolve_chat_go_loop Unmarshal' acc r
        = resolve_chat_go_loop Unmarshal' (acc @ line) r'"
    if "ReadLine r = (line, True, None, r')"
    using that
    by (simp add: resolve_loop.simps[of _ _ acc r] resolve_chat_go_loop.simps[of _ acc r])
  have lines: "resolve Unmarshal Marshal (pure_chunks cs1)
        = map Send (spec_events Unmarshal Marshal
                      (map chomp ls @ (if t = [] then [] else [t])))
          @ [CloseBody, CloseChan]
      \<and> resolve_chat_go Unmarshal' (pure_chunks cs1)
        = map Send (spec_events_chat_go Unmarshal'
                      (map chomp ls @ (if t = [] then [] else [t])))
          @ [CloseChan]"
    if "\<forall>l \<in> set ls. CHR 0x0A \<notin> set l" "CHR 0x0A \<notin> set t" "length t < defaultBufSize"
      "concat cs1 = terminated ls @ t"
    using resolve_line_by_line[OF n(1) that] by blast
  show ?thesis using plain attached fragment lines by blast
qed

theorem chunk_boundaries_do_not_matter_witness:
  "resolve json_Unmarshal example_Marshal
       (pure_chunks [hello_a, hello_b @ [CHR 0x0D], nl @ tool_line @ nl])
     = [Send ''text: hello'',
        Send ''tool: [{\"name\":\"search\",\"parameters\":{\"q\":\"isabelle\"}}]'',
        CloseBody, CloseChan]
   \<and> resolve json_Unmarshal example_Marshal
       (pure_chunks [hello_line @ crlf @ tool_line @ nl])
     = [Send ''text: hello'',
        Send ''tool: [{\"name\":\"search\",\"parameters\":{\"q\":\"isabelle\"}}]'',
        CloseBody, CloseChan]
   \<and> resolve_chat_go json_Unmarshal_chat_go
       (pure_chunks [hello_a] @ [(hello_b @ nl, Some EOF)])
     = [Send ''text: hello'', CloseChan]
   \<and> resolve_chat_go json_Unmarshal_chat_go
       (pure_chunks [] @ [(hello_line @ nl, Some EOF)])
     = [Send ''text: hello'', CloseChan]
   \<and> resolve_loop json_Unmarshal example_Marshal []
       (NewReader [(replicate 4096 (CHR ''a''), None)])
     = resolve_loop json_Unmarshal example_Marshal (replicate 4096 (CHR ''a'')) drained
   \<and> resolve json_Unmarshal example_Marshal
       (pure_chunks [long_head, replicate 5000 (CHR ''a''), ''\"}'' @ nl @ hello_line])
     = [Send (''text: '' @ replicate 5000 (CHR ''a'')), Send ''text: hello'',
        CloseBody, CloseChan]"
proof -
  let ?split = "[hello_a, hello_b @ [CHR 0x0D], nl @ tool_line @ nl]"
  let ?whole = "[hello_line @ crlf @ tool_line @ nl]"
  let ?long = "[long_head, replicate 5000 (CHR ''a''), ''\"}'' @ nl @ hello_line]"
  have ne: "[] \<notin> set ?split" "[] \<notin> set ?whole" "[] \<notin> set [hello_a]"
    "[] \<notin> set ([] :: string list)" "hello_b @ nl \<noteq> []" "hello_line @ nl \<noteq> []"
    "[] \<notin> set ?long"
    by (simp_all add: hello_a_def hello_b_def hello_line_def nl_def long_head_def)
  have eq: "concat ?split = concat ?whole"
    "concat [hello_a] @ hello_b @ nl = concat [] @ hello_line @ nl"
    "concat ?long = terminated [long_line] @ hello_line"
    by (simp_all add: hello_a_def hello_b_def hello_line_def crlf_def nl_def
        terminated_def long_line_def)
  have ln: "\<forall>l \<in> set [long_line]. CHR 0x0A \<notin> set l" "CHR 0x0A \<notin> set hello_line"
    "length hello_line < defaultBufSize"
    by (simp_all add: long_line_def long_head_def hello_line_def defaultBufSize_def)
  have ev: "spec_events json_Unmarshal example_Marshal
              (map chomp [long_line] @ (if hello_line = [] then [] else [hello_line]))
            = [''text: '' @ replicate 5000 (CHR ''a''), ''text: hello'']"
  proof -
    have "chomp long_line = long_line" by (simp add: chomp_def long_line_def)
    moreover have "hello_line \<noteq> []" by (simp add: hello_line_def)
    ultimately show ?thesis
      by (simp add: spec_events_def spec_dispatch_def json_Unmarshal_long_line
          json_Unmarshal_hello_line zero_block_def)
  qed
  have frag: "ReadLine (NewReader [(replicate 4096 (CHR ''a''), None)])
              = (replicate 4096 (CHR ''a''), True, None, drained)"
    by (simp add: read_defs IndexByte_replicate drained_def)
  have whole: "resolve json_Unmarshal example_Marshal (pure_chunks ?whole)
     = [Send ''text: hello'',
        Send ''tool: [{\"name\":\"search\",\"parameters\":{\"q\":\"isabelle\"}}]'',
        CloseBody, CloseChan]"
    by (simp add: resolve_def pure_chunks_def read_defs resolve_loop.simps json_defs
        hello_line_def tool_line_def crlf_def nl_def example_Marshal_def)
  have whole': "resolve_chat_go json_Unmarshal_chat_go
       (pure_chunks [] @ [(hello_line @ nl, Some EOF)])
     = [Send ''text: hello'', CloseChan]"
    by (simp add: resolve_chat_go_def pure_chunks_def read_defs resolve_chat_go_loop.simps
        json_defs hello_line_def nl_def)
  note t1 = chunk_boundaries_do_not_matter[OF ne(1,2), where tail = "[]"
      and Unmarshal = json_Unmarshal and Marshal = example_Marshal
      and Unmarshal' = json_Unmarshal_chat_go
      and r = "NewReader [(replicate 4096 (CHR ''a''), None)]" and acc = "[]"
      and line = "replicate 4096 (CHR ''a'')" and r' = drained
      and ?d1.0 = "hello_b @ nl" and ?d2.0 = "hello_b @ nl" and x = EOF
      and ls = "[long_line]" and t = hello_line]
  note t2 = chunk_boundaries_do_not_matter[OF ne(3,4), where tail = "[]"
      and Unmarshal = json_Unmarshal and Marshal = example_Marshal
      and Unmarshal' = json_Unmarshal_chat_go
      and r = "NewReader [(replicate 4096 (CHR ''a''), None)]" and acc = "[]"
      and line = "replicate 4096 (CHR ''a'')" and r' = drained
      and ?d1.0 = "hello_b @ nl" and ?d2.0 = "hello_line @ nl" and x = EOF
      and ls = "[long_line]" and t = hello_line]
  note t3 = chunk_boundaries_do_not_matter[OF ne(7,7), where tail = "[]"
      and Unmarshal = json_Unmarshal and Marshal = example_Marshal
      and Unmarshal' = json_Unmarshal_chat_go
      and r = "NewReader [(replicate 4096 (CHR ''a''), None)]" and acc = "[]"
      and line = "replicate 4096 (CHR ''a'')" and r' = drained
      and ?d1.0 = "hello_b @ nl" and ?d2.0 = "hello_b @ nl" and x = EOF
      and ls = "[long_line]" and t = hello_line]
  from t1 eq(1) frag whole
  have a: "resolve json_Unmarshal example_Marshal (pure_chunks ?split)
     = [Send ''text: hello'',
        Send ''tool: [{\"name\":\"search\",\"parameters\":{\"q\":\"isabelle\"}}]'',
        CloseBody, CloseChan]"
    and f: "resolve_loop json_Unmarshal example_Marshal []
       (NewReader [(replicate 4096 (CHR ''a''), None)])
     = resolve_loop json_Unmarshal example_Marshal (replicate 4096 (CHR ''a'')) drained"
    by simp_all
  from t2 ne(5,6) eq(2) whole'
  have b: "resolve_chat_go json_Unmarshal_chat_go
       (pure_chunks [hello_a] @ [(hello_b @ nl, Some EOF)])
     = [Send ''text: hello'', CloseChan]"
    by simp
  from t3 have "resolve json_Unmarshal example_Marshal (pure_chunks ?long)
     = map Send (spec_events json_Unmarshal example_Marshal
                   (map chomp [long_line] @ (if hello_line = [] then [] else [hello_line])))
       @ [CloseBody, CloseChan]"
    using ln eq(3) by blast
  then have c: "resolve json_Unmarshal example_Marshal (pure_chunks ?long)
     = [Send (''text: '' @ replicate 5000 (CHR ''a'')), Send ''text: hello'',
        CloseBody, CloseChan]"
    unfolding ev by simp
  show ?thesis using a b f c whole whole' by simp
qed

section \<open>The end of the stream\<close>




section \<open>The lifecycle of the channel and of the body\<close>

lemma count_list_Send_CloseChan: "count_list (map Send evs) CloseChan = 0"
  by (induction evs) auto

lemma count_list_Send_CloseBody: "count_list (map Send evs) CloseBody = 0"
  by (induction evs) auto

text \<open>
  C2. Whatever the stream holds and whatever the decoder and the encoder answer, so on
  every path out of the loop (end of stream, read error, decode error, encode error,
  finish signal), \<open>resolve\<close> returns, and what it did is a run of sends followed by the
  one close of the channel: the channel is closed exactly once, after the last event.
  This holds for \<open>resolve\<close> of \<open>src/unnamed/part_000\<close> and of \<open>src/chat.go\<close>.
\<close>

theorem resolve_closes_channel_once:
  "(\<exists>evs. resolve Unmarshal Marshal response_Body = map Send evs @ [CloseBody, CloseChan])
   \<and> count_list (resolve Unmarshal Marshal response_Body) CloseChan = 1
   \<and> last (resolve Unmarshal Marshal response_Body) = CloseChan
   \<and> (\<exists>evs. resolve_chat_go Unmarshal' response_Body = map Send evs @ [CloseChan])
   \<and> count_list (resolve_chat_go Unmarshal' response_Body) CloseChan = 1
   \<and> last (resolve_chat_go Unmarshal' response_Body) = CloseChan"
  by (auto simp: resolve_def resolve_chat_go_def count_list_Send_CloseChan)

text \<open>
  C3. \<open>resolve\<close> of \<open>src/unnamed/part_000\<close> closes the response body exactly once on
  every path. \<open>resolve\<close> of \<open>src/chat.go\<close> never closes it: it has no deferred
  \<open>response.Body.Close()\<close>, and nothing else in that file closes the body.
\<close>

theorem resolve_chat_go_leaves_body_open:
  "CloseBody \<notin> set (resolve_chat_go Unmarshal' response_Body)
   \<and> count_list (resolve Unmarshal Marshal response_Body) CloseBody = 1"
  by (auto simp: resolve_def resolve_chat_go_def count_list_Send_CloseBody)

section \<open>The default temperature\<close>

text \<open>
  C9. When the builder's temperature is negative, \<open>makePayload\<close> stores 0.95 in the
  builder before it assembles the payload, the payload carries that value, and the
  builder that is left behind keeps it: a later call finds 0.95, changes nothing and
  sends 0.95 again. When the temperature is not negative, the payload carries it as it
  is and the builder is left as it was. Both versions of \<open>makePayload\<close> do so.
\<close>

theorem makePayload_temperature_default:
  "(float32_lt_zero (temperature c) \<longrightarrow>
      snd (makePayload c ms sys msg ic tobj) = c\<lparr>temperature := float32_0_95\<rparr>
      \<and> fst (makePayload c ms sys msg ic tobj) ''temperature'' = Some (VFloat32 float32_0_95)
      \<and> snd (makePayload (snd (makePayload c ms sys msg ic tobj)) ms' sys' msg' ic' tobj')
          = c\<lparr>temperature := float32_0_95\<rparr>
      \<and> fst (makePayload (snd (makePayload c ms sys msg ic tobj)) ms' sys' msg' ic' tobj')
            ''temperature'' = Some (VFloat32 float32_0_95))
   \<and> (\<not> float32_lt_zero (temperature c) \<longrightarrow>
      snd (makePayload c ms sys msg ic tobj) = c
      \<and> fst (makePayload c ms sys msg ic tobj) ''temperature''
          = Some (VFloat32 (temperature c)))
   \<and> (float32_lt_zero (temperature_cg g) \<longrightarrow>
      snd (makePayload_chat_go g ms sys msg) = g\<lparr>temperature_cg := float32_0_95\<rparr>
      \<and> fst (makePayload_chat_go g ms sys msg) ''temperature'' = Some (VFloat32 float32_0_95)
      \<and> snd (makePayload_chat_go (snd (makePayload_chat_go g ms sys msg)) ms' sys' msg')
          = g\<lparr>temperature_cg := float32_0_95\<rparr>
      \<and> fst (makePayload_chat_go (snd (makePayload_chat_go g ms sys msg)) ms' sys' msg')
            ''temperature'' = Some (VFloat32 float32_0_95))
   \<and> (\<not> float32_lt_zero (temperature_cg g) \<longrightarrow>
      snd (makePayload_chat_go g ms sys msg) = g
      \<and> fst (makePayload_chat_go g ms sys msg) ''temperature''
          = Some (VFloat32 (temperature_cg g)))"
proof -
  have pos: "\<not> float32_lt_zero float32_0_95"
    by (simp add: float32_lt_zero_def float32_is_nan_def float32_0_95_def bit_iff_odd)
  show ?thesis
    by (simp add: makePayload_def makePayload_chat_go_def Let_def pos)
qed

lemma float32_lt_zero_examples:
  "float32_lt_zero 0xBF800000" "\<not> float32_lt_zero 0x3F333333"
  by (simp_all add: float32_lt_zero_def float32_is_nan_def bit_iff_odd)

theorem makePayload_temperature_default_witness:
  "float32_lt_zero (temperature unset_chat)
   \<and> snd (makePayload unset_chat [] ''be brief'' ''hi'' True no_tools)
       = unset_chat\<lparr>temperature := float32_0_95\<rparr>
   \<and> fst (makePayload unset_chat [] ''be brief'' ''hi'' True no_tools) ''temperature''
       = Some (VFloat32 0x3F733333)
   \<and> fst (makePayload (snd (makePayload unset_chat [] ''be brief'' ''hi'' True no_tools))
            [] ''be brief'' ''again'' False no_tools) ''temperature''
       = Some (VFloat32 0x3F733333)
   \<and> \<not> float32_lt_zero (temperature warm_chat)
   \<and> snd (makePayload warm_chat [] ''be brief'' ''hi'' True no_tools) = warm_chat
   \<and> fst (makePayload warm_chat [] ''be brief'' ''hi'' True no_tools) ''temperature''
       = Some (VFloat32 0x3F333333)
   \<and> float32_lt_zero (temperature_cg unset_chat_go)
   \<and> snd (makePayload_chat_go unset_chat_go [] ''be brief'' ''hi'')
       = unset_chat_go\<lparr>temperature_cg := float32_0_95\<rparr>
   \<and> fst (makePayload_chat_go unset_chat_go [] ''be brief'' ''hi'') ''temperature''
       = Some (VFloat32 0x3F733333)"
proof -
  have neg: "float32_lt_zero (temperature unset_chat)"
    by (simp add: unset_chat_def float32_lt_zero_examples)
  have nonneg: "\<not> float32_lt_zero (temperature warm_chat)"
    by (simp add: warm_chat_def float32_lt_zero_examples)
  have neg_cg: "float32_lt_zero (temperature_cg unset_chat_go)"
    by (simp add: unset_chat_go_def float32_lt_zero_examples)
  have tw: "temperature warm_chat = 0x3F333333"
    by (simp add: warm_chat_def)
  note a = makePayload_temperature_default
    [of unset_chat "[]" "''be brief''" "''hi''" True no_tools
        "[]" "''be brief''" "''again''" False no_tools unset_chat_go]
  note b = makePayload_temperature_default
    [of warm_chat "[]" "''be brief''" "''hi''" True no_tools
        "[]" "''be brief''" "''again''" False no_tools unset_chat_go]
  show ?thesis
    using a b neg nonneg neg_cg unfolding float32_0_95_def tw by blast
qed

end
